theory Spec2Isabelle
  imports Complex_Main "HOL-Library.Word"
begin

unbundle bit_operations_syntax

section \<open>The tile-pattern LUT tool: numbers\<close>

text \<open>
  The tool is TypeScript; every number is an IEEE double. Lattice sizes, tile sizes,
  tile indices, pixel coordinates and image dimensions are integer-valued and are
  modelled as \<^typ>\<open>int\<close>; quotients, sample coordinates and averages are modelled as
  exact rationals (\<^typ>\<open>rat\<close>). Below \<open>2\<^sup>5\<^sup>3\<close> the integer arithmetic of doubles is
  exact, and the quotients whose rounding or floor is taken here (\<open>i \<sqdot> 255 / (N - 1)\<close>,
  \<open>M \<sqdot> 0.2\<close>, \<open>M / 4\<close>, \<open>region / s\<close> with \<open>s\<close> a divisor of \<open>region\<close> or 8) round and
  floor to the same integers as their exact values. The non-finite values that a script
  can leave behind, or that a read outside an array produces, are kept apart in \<open>jsnum\<close>.
\<close>

datatype jsnum = Fin rat | NaN | PosInf | NegInf

text \<open>\<open>Number.isFinite\<close>.\<close>

fun isFinite :: "jsnum \<Rightarrow> bool" where
  "isFinite (Fin q) = True"
| "isFinite NaN = False"
| "isFinite PosInf = False"
| "isFinite NegInf = False"

text \<open>
  The remainder operator \<open>a % b\<close> on integer-valued operands: the result takes the sign
  of the dividend. (For \<open>b = 0\<close> the source yields NaN; every use below has \<open>b > 0\<close>
  wherever a theorem depends on it.)
\<close>

definition jsrem :: "int \<Rightarrow> int \<Rightarrow> int" where
  "jsrem a b = sgn a * (\<bar>a\<bar> mod \<bar>b\<bar>)"

text \<open>\<open>Math.round\<close>: the nearest integer, a tie going up.\<close>

definition mathRound :: "rat \<Rightarrow> int" where
  "mathRound q = \<lfloor>q + 1 / 2\<rfloor>"

text \<open>\<open>Number.isInteger\<close> on a finite quotient.\<close>

definition isInteger :: "rat \<Rightarrow> bool" where
  "isInteger q = (of_int \<lfloor>q\<rfloor> = q)"

section \<open>Tile geometry\<close>

datatype Layout = tall | wide

text \<open>\<open>computeDims\<close> returns \<open>(tilesW, tilesH, width, height)\<close>.\<close>

definition computeDims :: "int \<Rightarrow> int \<Rightarrow> Layout \<Rightarrow> int \<times> int \<times> int \<times> int" where
  "computeDims N M layout =
     (let tilesW = (if layout = wide then N * N else N);
          tilesH = (if layout = wide then N else N * N);
          width = tilesW * M;
          height = tilesH * M
      in (tilesW, tilesH, width, height))"

text \<open>The quantization function \<open>v\<close>: lattice index to byte value.\<close>

definition v :: "int \<Rightarrow> int \<Rightarrow> int" where
  "v i N = (if N \<le> 1 then 0 else mathRound (of_int (i * 255) / of_int (N - 1)))"

text \<open>\<open>tileIndexToRGB\<close> returns the lattice cell \<open>(r, g, b)\<close> of tile \<open>t\<close>.\<close>

definition tileIndexToRGB :: "int \<Rightarrow> int \<Rightarrow> int \<times> int \<times> int" where
  "tileIndexToRGB t N =
     (let r = jsrem t N;
          g = jsrem \<lfloor>(of_int t :: rat) / of_int N\<rfloor> N;
          b = \<lfloor>(of_int t :: rat) / of_int (N * N)\<rfloor>
      in (r, g, b))"

text \<open>\<open>tileCoords\<close> returns \<open>(xTile, yTile)\<close>.\<close>

definition tileCoords :: "int \<Rightarrow> int \<Rightarrow> Layout \<Rightarrow> int \<times> int" where
  "tileCoords t N layout =
     (case tileIndexToRGB t N of (r, g, b) \<Rightarrow>
        if layout = wide then (r + g * N, b) else (r, g + b * N))"

section \<open>Geometry detection\<close>

datatype error =
    DimensionLimitExceeded int int int int int
  | Context2DUnavailable
  | Cancelled
  | EncodingFailure
  | FilterRuntimeError int int string
  | UncaughtException
  | GeometryUndetectable

text \<open>
  \<open>detectGeometry\<close> tries the wide hypothesis, then the tall one. Each block of the
  source is one function here; a block that does not return falls through (\<open>None\<close>).
  The quotients \<open>width / height\<close> and \<open>height / N\<close> are exact rationals, tested by
  \<open>Number.isInteger\<close> as the source does.
\<close>

definition tryWide :: "int \<Rightarrow> int \<Rightarrow> (int \<times> int \<times> Layout) option" where
  "tryWide width height =
     (if height > 0 \<and> jsrem width height = 0 then
        (let Nq = (of_int width :: rat) / of_int height; N = \<lfloor>Nq\<rfloor> in
         if isInteger Nq \<and> Nq \<ge> 2 \<and> Nq \<le> 256 then
           (if jsrem height N = 0 then
              (let Mq = (of_int height :: rat) / of_int N; M = \<lfloor>Mq\<rfloor> in
               if Mq \<ge> 1 \<and> isInteger Mq then
                 (let expectedW = N * N * M; expectedH = N * M in
                  if expectedW = width \<and> expectedH = height then Some (N, M, wide)
                  else None)
               else None)
            else None)
         else None)
      else None)"

definition tryTall :: "int \<Rightarrow> int \<Rightarrow> (int \<times> int \<times> Layout) option" where
  "tryTall width height =
     (if width > 0 \<and> jsrem height width = 0 then
        (let Nq = (of_int height :: rat) / of_int width; N = \<lfloor>Nq\<rfloor> in
         if isInteger Nq \<and> Nq \<ge> 2 \<and> Nq \<le> 256 then
           (if jsrem width N = 0 then
              (let Mq = (of_int width :: rat) / of_int N; M = \<lfloor>Mq\<rfloor> in
               if Mq \<ge> 1 \<and> isInteger Mq then
                 (let expectedW = N * M; expectedH = N * N * M in
                  if expectedW = width \<and> expectedH = height then Some (N, M, tall)
                  else None)
               else None)
            else None)
         else None)
      else None)"

definition detectGeometry :: "int \<Rightarrow> int \<Rightarrow> error + (int \<times> int \<times> Layout)" where
  "detectGeometry width height =
     (case tryWide width height of
        Some geom \<Rightarrow> Inr geom
      | None \<Rightarrow>
          (case tryTall width height of
             Some geom \<Rightarrow> Inr geom
           | None \<Rightarrow> Inl GeometryUndetectable))"

section \<open>Loops and cancellation\<close>

text \<open>
  A \<open>for\<close> loop whose body may throw: the items are visited in order, the state is
  threaded through, and the first error ends the loop. \<open>indices n\<close> lists the values of
  \<open>for (let i = 0; i < n; i++)\<close>.
\<close>

fun forM :: "'a list \<Rightarrow> 's \<Rightarrow> ('a \<Rightarrow> 's \<Rightarrow> error + 's) \<Rightarrow> error + 's" where
  "forM [] s body = Inr s"
| "forM (x # xs) s body = (case body x s of Inl e \<Rightarrow> Inl e | Inr s' \<Rightarrow> forM xs s' body)"

definition indices :: "int \<Rightarrow> int list" where
  "indices n = map int [0..<nat n]"

text \<open>
  The tool is single-threaded: the shared flag \<open>cancelRef.cancelled\<close> can change only
  while an operation is suspended in \<open>await nextFrame()\<close>. An operation therefore sees
  the flag as a function of the number of yields it has made so far: \<open>cancelRef k\<close> is the
  flag after \<open>k\<close> yields, and \<open>cancelRef 0\<close> is the flag the operation starts with.
\<close>

type_synonym cancelRef = "nat \<Rightarrow> bool"

section \<open>Pixel buffers and the canvas\<close>

type_synonym byte = "8 word"
type_synonym rgba = "byte \<times> byte \<times> byte \<times> byte"

text \<open>
  The browser canvas is not code of the repository. It is modelled as its size and the
  colour of each pixel; a new canvas is transparent black, and \<open>fillRect\<close> with an opaque
  \<open>rgb(r,g,b)\<close> fill style overwrites the pixels of the rectangle that lie on the canvas
  (no anti-aliasing at integer coordinates). CSS clamps each colour component to a byte.
\<close>

record canvas =
  cwidth :: int
  cheight :: int
  cpixel :: "int \<Rightarrow> int \<Rightarrow> rgba"

definition cssByte :: "int \<Rightarrow> byte" where
  "cssByte n = of_int (max 0 (min 255 n))"

definition createCanvas :: "int \<Rightarrow> int \<Rightarrow> canvas" where
  "createCanvas w h = \<lparr>cwidth = w, cheight = h, cpixel = (\<lambda>px py. (0, 0, 0, 0))\<rparr>"

definition fillRect :: "canvas \<Rightarrow> int \<Rightarrow> int \<Rightarrow> int \<Rightarrow> int \<Rightarrow> int \<times> int \<times> int \<Rightarrow> canvas" where
  "fillRect c x y w h style =
     (case style of (r, g, b) \<Rightarrow>
        c\<lparr>cpixel := (\<lambda>px py.
             if x \<le> px \<and> px < x + w \<and> y \<le> py \<and> py < y + h \<and>
                0 \<le> px \<and> px < cwidth c \<and> 0 \<le> py \<and> py < cheight c
             then (cssByte r, cssByte g, cssByte b, 255)
             else cpixel c px py)\<rparr>)"

text \<open>
  \<open>ImageData\<close>: RGBA bytes in row-major order with the image's size. Reading a typed
  array out of range yields \<open>undefined\<close>, which every arithmetic use below turns into NaN;
  writing out of range is ignored; a \<open>Uint8ClampedArray\<close> clamps what is stored.
\<close>

record ImageData =
  img_data :: "byte list"
  img_width :: int
  img_height :: int

definition readByte :: "byte list \<Rightarrow> int \<Rightarrow> jsnum" where
  "readByte data i =
     (if 0 \<le> i \<and> nat i < length data then Fin (of_int (uint (data ! nat i))) else NaN)"

definition writeByte :: "byte list \<Rightarrow> int \<Rightarrow> int \<Rightarrow> byte list" where
  "writeByte data i n =
     (if 0 \<le> i \<and> nat i < length data then data[nat i := of_int (max 0 (min 255 n))] else data)"

text \<open>
  PNG is lossless, so the blob of a canvas is modelled by the canvas itself, and
  \<open>loadPngToImageData\<close> (decode, draw, \<open>getImageData\<close>) by reading its pixels out.
\<close>

definition loadPngToImageData :: "canvas \<Rightarrow> ImageData" where
  "loadPngToImageData c =
     \<lparr>img_data =
        concat (map (\<lambda>p. case cpixel c (int p mod cwidth c) (int p div cwidth c) of
                            (r, g, b, a) \<Rightarrow> [r, g, b, a])
                    [0..<nat (cwidth c * cheight c)]),
      img_width = cwidth c,
      img_height = cheight c\<rparr>"

section \<open>Pattern generation\<close>

text \<open>
  What the host provides: the probed \<open>CANVAS_MAX_DIM\<close>, whether a 2D context can be
  created, and whether \<open>canvas.toBlob\<close> delivers a blob.
\<close>

record host =
  canvasMaxDim :: int
  context2d :: bool
  pngEncodes :: bool

text \<open>
  One iteration of the tile loop of \<open>generateStep1Pattern\<close>; the state is the canvas
  and the number of yields so far. Progress reports and status texts are not modelled.
\<close>

definition patternStep ::
  "int \<Rightarrow> int \<Rightarrow> Layout \<Rightarrow> cancelRef \<Rightarrow> int \<Rightarrow> canvas \<times> nat \<Rightarrow> error + canvas \<times> nat" where
  "patternStep N M layout cancelRef t st =
     (case st of (cv, yields) \<Rightarrow>
        if cancelRef yields then Inl Cancelled
        else
          (case tileIndexToRGB t N of (r, g, b) \<Rightarrow>
             let rr = v r N; gg = v g N; bb = v b N in
             (case tileCoords t N layout of (xTile, yTile) \<Rightarrow>
                let cv' = fillRect cv (xTile * M) (yTile * M) M M (rr, gg, bb) in
                if jsrem t 5000 = 0 then Inr (cv', Suc yields) else Inr (cv', yields))))"

text \<open>
  The error for too large an image carries what the message prints: the width and
  height, \<open>CANVAS_MAX_DIM\<close>, \<open>N\<close> and the suggested bound \<open>Math.max(1, mMax)\<close>.
\<close>

definition generateStep1Pattern ::
  "host \<Rightarrow> int \<Rightarrow> int \<Rightarrow> Layout \<Rightarrow> cancelRef \<Rightarrow> error + canvas" where
  "generateStep1Pattern hst N M layout cancelRef =
     (case computeDims N M layout of (tilesW, tilesH, width, height) \<Rightarrow>
        if width > canvasMaxDim hst \<or> height > canvasMaxDim hst then
          (let mMax = \<lfloor>(of_int (canvasMaxDim hst) :: rat) / of_int (N * N)\<rfloor> in
           Inl (DimensionLimitExceeded width height (canvasMaxDim hst) N (max 1 mMax)))
        else if \<not> context2d hst then Inl Context2DUnavailable
        else
          (let totalTiles = N * N * N in
           case forM (indices totalTiles) (createCanvas width height, 0)
                  (patternStep N M layout cancelRef) of
             Inl e \<Rightarrow> Inl e
           | Inr (cv, yields) \<Rightarrow> if pngEncodes hst then Inr cv else Inl EncodingFailure))"

section \<open>The pixel filter\<close>

text \<open>
  What a script throws, as the catch block of \<open>applyStep2Filter\<close> meets it. The block
  computes \<open>err instanceof Error ? err.message : String(err)\<close> and splices the result into
  a template literal. For most values this yields a message string (\<open>Printable\<close>). For
  some it throws in turn: \<open>String\<close> of an object without prototype, or an \<open>Error\<close> whose
  message is a Symbol (\<open>Unprintable\<close>).
\<close>

datatype thrown = Printable string | Unprintable

text \<open>
  The user's code is spliced into the body of the wrapper function and runs in its
  scope: besides \<open>R, G, B\<close> it can assign the wrapper's saved copies \<open>_R, _G, _B\<close>, and it
  can replace the globals the rest of the wrapper calls. One call of the script is
  modelled by what the wrapper finds afterwards:
  \<^item> \<open>Throws t\<close>: the script threw \<open>t\<close>;
  \<^item> \<open>Finishes R G B sR sG sB\<close>: it returned, \<open>Number.isFinite\<close>, \<open>Math.round\<close>,
    \<open>Math.min\<close> and \<open>Math.max\<close> are still the built-in functions, \<open>R, G, B\<close> hold the
    first three values and the saved copies \<open>_R, _G, _B\<close> the last three (a saved copy
    is only ever passed to \<open>Math.round\<close>, so it is given as the number it converts to;
    a value of \<open>R, G, B\<close> that is not a number fails \<open>Number.isFinite\<close> as NaN does and
    is given as NaN);
  \<^item> \<open>Derails res\<close>: anything else that returns control to the pass: the script
    replaced one of those functions, left a saved copy that cannot be converted to a
    number, or closed the wrapper's inner function by its own text and so ran in place of
    the rest of the wrapper; the call then throws or returns a value, and \<open>res\<close> is that
    result, a returned value given as the integer the 32-bit operators of the pass read
    from it.

  A script can also keep state in global variables, so what a call does may depend on the
  calls made before it. The first argument of a script, and of the compiled function, is
  the number of calls the pass has made before this one; a script without state ignores
  it. Not modelled: a script that does not compile (it never reaches the pixel loop), a
  call that never returns (the pass then never returns either), and a returned value
  that the 32-bit operators cannot convert.
\<close>

datatype outcome =
    Throws thrown
  | Finishes jsnum jsnum jsnum jsnum jsnum jsnum
  | Derails "thrown + int"

type_synonym script =
  "nat \<Rightarrow> jsnum \<Rightarrow> jsnum \<Rightarrow> jsnum \<Rightarrow> int \<Rightarrow> int \<Rightarrow> int \<Rightarrow> int \<Rightarrow> outcome"

type_synonym filterFn =
  "nat \<Rightarrow> jsnum \<Rightarrow> jsnum \<Rightarrow> jsnum \<Rightarrow> int \<Rightarrow> int \<Rightarrow> int \<Rightarrow> int \<Rightarrow> thrown + int"

fun roundNum :: "jsnum \<Rightarrow> jsnum" where
  "roundNum (Fin q) = Fin (of_int (mathRound q))"
| "roundNum x = x"

fun mathMin :: "jsnum \<Rightarrow> jsnum \<Rightarrow> jsnum" where
  "mathMin NaN y = NaN"
| "mathMin x NaN = NaN"
| "mathMin NegInf y = NegInf"
| "mathMin x NegInf = NegInf"
| "mathMin PosInf y = y"
| "mathMin x PosInf = x"
| "mathMin (Fin p) (Fin q) = Fin (min p q)"

fun mathMax :: "jsnum \<Rightarrow> jsnum \<Rightarrow> jsnum" where
  "mathMax NaN y = NaN"
| "mathMax x NaN = NaN"
| "mathMax PosInf y = PosInf"
| "mathMax x PosInf = PosInf"
| "mathMax NegInf y = y"
| "mathMax x NegInf = x"
| "mathMax (Fin p) (Fin q) = Fin (max p q)"

text \<open>
  The bitwise operators work on 32-bit signed integers: \<open>ToInt32\<close> truncates a finite
  number and wraps it, and maps NaN and the infinities to 0.
\<close>

fun toInt32 :: "jsnum \<Rightarrow> int" where
  "toInt32 (Fin q) = signed_take_bit 31 (sgn \<lfloor>q\<rfloor> * \<lfloor>\<bar>q\<bar>\<rfloor>)"
| "toInt32 x = 0"

definition shl32 :: "int \<Rightarrow> nat \<Rightarrow> int" where
  "shl32 a n = signed_take_bit 31 (push_bit n a)"

definition shr32 :: "int \<Rightarrow> nat \<Rightarrow> int" where
  "shr32 a n = drop_bit n (signed_take_bit 31 a)"

text \<open>
  \<open>compilePixelFilter\<close>: the wrapper saves \<open>R, G, B\<close> in \<open>_R, _G, _B\<close>, runs the script,
  and finalizes the three channels with the saved copies as they are after the script.
\<close>

definition compilePixelFilter :: "script \<Rightarrow> filterFn" where
  "compilePixelFilter userCode n R G B X Y W H =
     (case userCode n R G B X Y W H of
        Throws t \<Rightarrow> Inl t
      | Derails res \<Rightarrow> res
      | Finishes R1 G1 B1 sR sG sB \<Rightarrow>
          (let R2 = (if \<not> isFinite R1 then sR else R1);
               G2 = (if \<not> isFinite G1 then sG else G1);
               B2 = (if \<not> isFinite B1 then sB else B1);
               R3 = mathMax (Fin 0) (mathMin (Fin 255) (roundNum R2));
               G3 = mathMax (Fin 0) (mathMin (Fin 255) (roundNum G2));
               B3 = mathMax (Fin 0) (mathMin (Fin 255) (roundNum B2))
           in Inr (shl32 (toInt32 R3) 16 OR shl32 (toInt32 G3) 8 OR toInt32 B3)))"

text \<open>
  The catch block of \<open>applyStep2Filter\<close>: a thrown value with a message becomes the
  filter error of the pixel; when the conversion to a message throws, that exception
  leaves the pass as it is, without the pixel's coordinates.
\<close>

definition catchFilterError :: "int \<Rightarrow> int \<Rightarrow> thrown \<Rightarrow> error" where
  "catchFilterError x y err =
     (case err of Printable msg \<Rightarrow> FilterRuntimeError x y msg | Unprintable \<Rightarrow> UncaughtException)"

text \<open>
  One pixel of \<open>applyStep2Filter\<close>; the state is the data array, \<open>processed\<close> and the
  number of yields so far. \<open>processed\<close> is also the number of calls of the filter made
  so far. The alpha byte is not touched.
\<close>

definition filterPixel ::
  "filterFn \<Rightarrow> int \<Rightarrow> int \<Rightarrow> cancelRef \<Rightarrow> int \<Rightarrow> int \<Rightarrow> byte list \<times> int \<times> nat
     \<Rightarrow> error + byte list \<times> int \<times> nat" where
  "filterPixel filterFn width height cancelRef y x st =
     (case st of (data, processed, yields) \<Rightarrow>
        let rowStart = y * width; p = rowStart + x; i = p * 4;
            r = readByte data i; g = readByte data (i + 1); b = readByte data (i + 2) in
        (case filterFn (nat processed) r g b x y width height of
           Inl err \<Rightarrow> Inl (catchFilterError x y err)
         | Inr packed \<Rightarrow>
             let data1 = writeByte data i (shr32 packed 16 AND 255);
                 data2 = writeByte data1 (i + 1) (shr32 packed 8 AND 255);
                 data3 = writeByte data2 (i + 2) (signed_take_bit 31 packed AND 255);
                 processed1 = processed + 1 in
             if jsrem processed1 150000 = 0 then
               (if cancelRef (Suc yields) then Inl Cancelled
                else Inr (data3, processed1, Suc yields))
             else Inr (data3, processed1, yields)))"

definition filterRow ::
  "filterFn \<Rightarrow> int \<Rightarrow> int \<Rightarrow> cancelRef \<Rightarrow> int \<Rightarrow> byte list \<times> int \<times> nat
     \<Rightarrow> error + byte list \<times> int \<times> nat" where
  "filterRow filterFn width height cancelRef y st =
     (case st of (data, processed, yields) \<Rightarrow>
        if cancelRef yields then Inl Cancelled
        else forM (indices width) st (filterPixel filterFn width height cancelRef y))"

definition applyStep2Filter ::
  "ImageData \<Rightarrow> int \<Rightarrow> int \<Rightarrow> filterFn \<Rightarrow> cancelRef \<Rightarrow> error + ImageData" where
  "applyStep2Filter img width height filterFn cancelRef =
     (case forM (indices height) (img_data img, 0, 0)
             (filterRow filterFn width height cancelRef) of
        Inl e \<Rightarrow> Inl e
      | Inr (data, processed, yields) \<Rightarrow> Inr (img\<lparr>img_data := data\<rparr>))"

section \<open>Sampling and the cube file\<close>

fun jsAdd :: "jsnum \<Rightarrow> jsnum \<Rightarrow> jsnum" where
  "jsAdd (Fin p) (Fin q) = Fin (p + q)"
| "jsAdd NaN y = NaN"
| "jsAdd x NaN = NaN"
| "jsAdd PosInf NegInf = NaN"
| "jsAdd NegInf PosInf = NaN"
| "jsAdd PosInf y = PosInf"
| "jsAdd NegInf y = NegInf"
| "jsAdd x PosInf = PosInf"
| "jsAdd x NegInf = NegInf"

text \<open>Division of a sum by the sample count (a non-negative integer).\<close>

fun jsDivCount :: "jsnum \<Rightarrow> nat \<Rightarrow> jsnum" where
  "jsDivCount (Fin q) n =
     (if n = 0 then (if q = 0 then NaN else if q > 0 then PosInf else NegInf)
      else Fin (q / of_nat n))"
| "jsDivCount x n = x"

definition clampByte :: "jsnum \<Rightarrow> int \<Rightarrow> int" where
  "clampByte n fallback =
     (case n of
        Fin q \<Rightarrow> (let r = mathRound q in if r < 0 then 0 else if r > 255 then 255 else r)
      | _ \<Rightarrow> fallback)"

text \<open>The inset margin of \<open>sampleTileColor\<close>; \<open>0.2\<close> is the rational \<open>2/10\<close>.\<close>

definition sampleMargin :: "int \<Rightarrow> int" where
  "sampleMargin M =
     (let margin = max 1 \<lfloor>(of_int M :: rat) * (2 / 10)\<rfloor> in
      if margin * 2 \<ge> M then max 0 \<lfloor>(of_int M :: rat) / 4\<rfloor> else margin)"

text \<open>
  One sample coordinate, clamped to the image: the expression of \<open>py\<close> and \<open>px\<close> in
  \<open>sampleTileColor\<close>, with \<open>limit\<close> the image's height or width, \<open>c0\<close> the region's
  origin on that axis and \<open>k\<close> the loop counter.
\<close>

definition sampleCoord :: "int \<Rightarrow> int \<Rightarrow> int \<Rightarrow> rat \<Rightarrow> int" where
  "sampleCoord limit c0 k step =
     min (limit - 1) (max 0 \<lfloor>of_int c0 + (of_int k + 1 / 2) * step\<rfloor>)"

text \<open>
  The pixel coordinates \<open>(px, py)\<close> that the two nested loops of \<open>sampleTileColor\<close> visit,
  in the order they are visited.
\<close>

definition samplePoints :: "int \<Rightarrow> int \<Rightarrow> int \<Rightarrow> int \<Rightarrow> int \<Rightarrow> (int \<times> int) list" where
  "samplePoints imgW imgH tileX tileY M =
     (let margin = sampleMargin M;
          x0 = tileX * M + margin;
          y0 = tileY * M + margin;
          region = M - margin * 2;
          s = max 1 (min 8 region);
          step = (of_int region :: rat) / of_int s
      in concat (map (\<lambda>yy.
           let py = sampleCoord imgH y0 yy step in
           map (\<lambda>xx. let px = sampleCoord imgW x0 xx step in (px, py)) (indices s))
         (indices s)))"

text \<open>The loop body at one sample point: three reads, three sums and the count.\<close>

definition addSample ::
  "byte list \<Rightarrow> int \<Rightarrow> int \<times> int \<Rightarrow> jsnum \<times> jsnum \<times> jsnum \<times> nat \<Rightarrow> jsnum \<times> jsnum \<times> jsnum \<times> nat" where
  "addSample data imgW pt acc =
     (case pt of (px, py) \<Rightarrow> case acc of (sumR, sumG, sumB, count) \<Rightarrow>
        let idx = (py * imgW + px) * 4 in
        (jsAdd sumR (readByte data idx), jsAdd sumG (readByte data (idx + 1)),
         jsAdd sumB (readByte data (idx + 2)), Suc count))"

definition sampleSums ::
  "byte list \<Rightarrow> int \<Rightarrow> int \<Rightarrow> int \<Rightarrow> int \<Rightarrow> int \<Rightarrow> jsnum \<times> jsnum \<times> jsnum \<times> nat" where
  "sampleSums data imgW imgH tileX tileY M =
     fold (addSample data imgW) (samplePoints imgW imgH tileX tileY M) (Fin 0, Fin 0, Fin 0, 0)"

definition sampleTileColor ::
  "byte list \<Rightarrow> int \<Rightarrow> int \<Rightarrow> int \<Rightarrow> int \<Rightarrow> int \<Rightarrow> jsnum \<times> jsnum \<times> jsnum" where
  "sampleTileColor data imgW imgH tileX tileY M =
     (case sampleSums data imgW imgH tileX tileY M of (sumR, sumG, sumB, count) \<Rightarrow>
        (jsDivCount sumR count, jsDivCount sumG count, jsDivCount sumB count))"

text \<open>
  \<open>toFixed(6)\<close>: the decimal with six digits nearest to the number (a tie away from
  zero), as the rational it denotes.
\<close>

definition toFixed6 :: "rat \<Rightarrow> rat" where
  "toFixed6 q = sgn q * of_int \<lfloor>\<bar>q\<bar> * 1000000 + 1 / 2\<rfloor> / 1000000"

text \<open>
  The cube file: the title's parameters \<open>(N, M, layout)\<close>, \<open>LUT_3D_SIZE\<close> and the data
  lines in order, each line as the three numbers it prints.
\<close>

record cubeFile =
  cube_title :: "int \<times> int \<times> Layout"
  cube_size :: int
  cube_lines :: "(rat \<times> rat \<times> rat) list"

text \<open>
  The body of the innermost loop of \<open>generateCubeLut\<close>; the state is the lines so far,
  \<open>done\<close> and the number of yields so far.
\<close>

definition cubeCell ::
  "ImageData \<Rightarrow> int \<Rightarrow> int \<Rightarrow> Layout \<Rightarrow> cancelRef \<Rightarrow> int \<Rightarrow> int \<Rightarrow> int
     \<Rightarrow> (rat \<times> rat \<times> rat) list \<times> int \<times> nat \<Rightarrow> error + (rat \<times> rat \<times> rat) list \<times> int \<times> nat" where
  "cubeCell img N M layout cancelRef b g r st =
     (case st of (lines, done, yields) \<Rightarrow>
        if cancelRef yields then Inl Cancelled
        else
          (let xTile = (if layout = wide then r + g * N else r);
               yTile = (if layout = wide then b else g + b * N) in
           case sampleTileColor (img_data img) (img_width img) (img_height img) xTile yTile M of
             (cr, cg, cb) \<Rightarrow>
               let rr = (of_int (clampByte cr 0) :: rat) / 255;
                   gg = (of_int (clampByte cg 0) :: rat) / 255;
                   bb = (of_int (clampByte cb 0) :: rat) / 255;
                   lines1 = lines @ [(toFixed6 rr, toFixed6 gg, toFixed6 bb)];
                   done1 = done + 1 in
               if jsrem done1 5000 = 0 then Inr (lines1, done1, Suc yields)
               else Inr (lines1, done1, yields)))"

definition generateCubeLut ::
  "ImageData \<Rightarrow> int \<times> int \<times> Layout \<Rightarrow> cancelRef \<Rightarrow> error + cubeFile" where
  "generateCubeLut img geom cancelRef =
     (case geom of (N, M, layout) \<Rightarrow>
        case forM (indices N) ([], 0, 0)
               (\<lambda>b st. forM (indices N) st
                  (\<lambda>g st. forM (indices N) st (cubeCell img N M layout cancelRef b g))) of
          Inl e \<Rightarrow> Inl e
        | Inr (lines, done, yields) \<Rightarrow>
            Inr \<lparr>cube_title = (N, M, layout), cube_size = N, cube_lines = lines\<rparr>)"

section \<open>Notions used to state the filter's behaviour\<close>


text \<open>
  The call of the filter function at the pixel with row-major index \<open>p\<close> of an image
  during a pass: the \<open>p\<close>-th call, with the pixel's three colour bytes and its
  coordinates; and the same for the script inside a compiled filter.
\<close>

definition filterAt :: "filterFn \<Rightarrow> byte list \<Rightarrow> int \<Rightarrow> int \<Rightarrow> int \<Rightarrow> thrown + int" where
  "filterAt filterFn data width height p =
     filterFn (nat p) (readByte data (p * 4)) (readByte data (p * 4 + 1)) (readByte data (p * 4 + 2))
       (p mod width) (p div width) width height"

definition scriptAt :: "script \<Rightarrow> byte list \<Rightarrow> int \<Rightarrow> int \<Rightarrow> int \<Rightarrow> outcome" where
  "scriptAt userCode data width height p =
     userCode (nat p) (readByte data (p * 4)) (readByte data (p * 4 + 1)) (readByte data (p * 4 + 2))
       (p mod width) (p div width) width height"

text \<open>
  The loop invariant of the filter pass: each of the first \<open>m\<close> pixels of \<open>data'\<close> holds
  the three bytes unpacked from what the filter returned for that pixel of the original
  \<open>data\<close> (alpha untouched), and the rest of \<open>data'\<close> is still the original.
\<close>

definition filteredUpto ::
  "filterFn \<Rightarrow> int \<Rightarrow> int \<Rightarrow> byte list \<Rightarrow> int \<Rightarrow> byte list \<Rightarrow> bool" where
  "filteredUpto filterFn width height data m data' \<longleftrightarrow>
     length data' = length data \<and>
     (\<forall>p. 0 \<le> p \<and> p < m \<longrightarrow>
        (\<exists>packed. filterAt filterFn data width height p = Inr packed \<and>
           uint (data' ! nat (p * 4)) = shr32 packed 16 AND 255 \<and>
           uint (data' ! nat (p * 4 + 1)) = shr32 packed 8 AND 255 \<and>
           uint (data' ! nat (p * 4 + 2)) = signed_take_bit 31 packed AND 255 \<and>
           data' ! nat (p * 4 + 3) = data ! nat (p * 4 + 3))) \<and>
     (\<forall>j. m * 4 \<le> j \<longrightarrow> data' ! nat j = data ! nat j)"

text \<open>
  The errors a filter pass can end with: cancellation (the flag was set at some point),
  or what the catch block makes of the value thrown at the first pixel (in row-major
  order) on which the filter throws.
\<close>

definition filterFailure ::
  "filterFn \<Rightarrow> int \<Rightarrow> int \<Rightarrow> cancelRef \<Rightarrow> byte list \<Rightarrow> error \<Rightarrow> bool" where
  "filterFailure filterFn width height cancelRef data e \<longleftrightarrow>
     (e = Cancelled \<and> (\<exists>k. cancelRef k)) \<or>
     (\<exists>p err. 0 \<le> p \<and> p < width * height \<and>
        e = catchFilterError (p mod width) (p div width) err \<and>
        filterAt filterFn data width height p = Inl err \<and>
        (\<forall>q. 0 \<le> q \<and> q < p \<longrightarrow> (\<exists>packed. filterAt filterFn data width height q = Inr packed)))"

section \<open>Notions used to state the round trip\<close>

text \<open>
  An image is the identity pattern for \<open>(N, M, layout)\<close> when it has the computed size
  and every pixel of the tile of every index \<open>t\<close> holds the quantized colour of the
  lattice cell of \<open>t\<close>.
\<close>

definition identityImage :: "int \<Rightarrow> int \<Rightarrow> Layout \<Rightarrow> ImageData \<Rightarrow> bool" where
  "identityImage N M layout img \<longleftrightarrow>
     (case computeDims N M layout of (tilesW, tilesH, width, height) \<Rightarrow>
        img_width img = width \<and> img_height img = height \<and>
        length (img_data img) = nat (width * height * 4) \<and>
        (\<forall>t px py. 0 \<le> t \<and> t < N * N * N \<longrightarrow>
           (case tileCoords t N layout of (xTile, yTile) \<Rightarrow>
            case tileIndexToRGB t N of (r, g, b) \<Rightarrow>
              xTile * M \<le> px \<and> px < xTile * M + M \<and> yTile * M \<le> py \<and> py < yTile * M + M \<longrightarrow>
              readByte (img_data img) ((py * width + px) * 4) = Fin (of_int (v r N)) \<and>
              readByte (img_data img) ((py * width + px) * 4 + 1) = Fin (of_int (v g N)) \<and>
              readByte (img_data img) ((py * width + px) * 4 + 2) = Fin (of_int (v b N)))))"

text \<open>The data line of the cube file that the identity pattern yields for a cell.\<close>

definition identityLine :: "int \<Rightarrow> int \<Rightarrow> int \<Rightarrow> int \<Rightarrow> rat \<times> rat \<times> rat" where
  "identityLine N r g b =
     (toFixed6 (of_int (v r N) / 255), toFixed6 (of_int (v g N) / 255),
      toFixed6 (of_int (v b N) / 255))"

text \<open>
  The loop invariant of \<open>generateCubeLut\<close> on the identity pattern: \<open>m\<close> lines are
  written, and the line of every cell with index below \<open>m\<close> is its identity line.
\<close>

definition identityLinesUpto :: "int \<Rightarrow> int \<Rightarrow> (rat \<times> rat \<times> rat) list \<Rightarrow> bool" where
  "identityLinesUpto N m lines \<longleftrightarrow>
     length lines = nat m \<and>
     (\<forall>r g b. 0 \<le> r \<and> r < N \<and> 0 \<le> g \<and> g < N \<and> 0 \<le> b \<and> b < N \<and>
        r + g * N + b * (N * N) < m \<longrightarrow>
        lines ! nat (r + g * N + b * (N * N)) = identityLine N r g b)"

section \<open>Arithmetic of the number model\<close>


lemma jsrem_nonneg: "0 \<le> a \<Longrightarrow> 0 < b \<Longrightarrow> jsrem a b = a mod b"
  by (cases "a = 0") (simp_all add: jsrem_def)

lemma jsrem_zero_iff: "0 < b \<Longrightarrow> jsrem a b = 0 \<longleftrightarrow> b dvd a"
  by (auto simp: jsrem_def sgn_if mod_eq_0_iff_dvd)

lemma isInteger_of_int: "isInteger (of_int k)"
  by (simp add: isInteger_def)

lemma tileIndexToRGB_nonneg:
  "0 \<le> t \<Longrightarrow> 0 < N \<Longrightarrow> tileIndexToRGB t N = (t mod N, (t div N) mod N, t div (N * N))"
  by (simp add: tileIndexToRGB_def floor_divide_of_int_eq jsrem_nonneg pos_imp_zdiv_nonneg_iff del: of_int_mult)

lemma mathRound_mono: "p \<le> q \<Longrightarrow> mathRound p \<le> mathRound q"
  by (simp add: mathRound_def floor_mono)

lemma mathRound_of_int: "mathRound (of_int k) = k"
  unfolding mathRound_def by (rule floor_unique) simp_all

lemma v_zero: "v 0 N = 0"
  using mathRound_of_int [of 0] by (simp add: v_def)

lemma v_top: "2 \<le> N \<Longrightarrow> v (N - 1) N = 255"
proof -
  assume N: "2 \<le> N"
  have "(of_int ((N - 1) * 255) :: rat) / of_int (N - 1) = of_int 255"
    using N by (simp only: of_int_mult nonzero_mult_div_cancel_left)
  then show ?thesis using N mathRound_of_int [of 255]
    by (simp add: v_def del: of_int_mult of_int_diff)
qed

lemma v_mono: "i \<le> j \<Longrightarrow> v i N \<le> v j N"
proof (cases "N \<le> 1")
  case True then show ?thesis by (simp add: v_def)
next
  case False
  assume ij: "i \<le> j"
  have pos: "(0::rat) < of_int (N - 1)" using False by simp
  have "(of_int (i * 255) :: rat) \<le> of_int (j * 255)" using ij by simp
  then have "(of_int (i * 255) :: rat) / of_int (N - 1) \<le> of_int (j * 255) / of_int (N - 1)"
    using pos by (simp only: divide_le_cancel) simp
  then show ?thesis using False by (simp only: v_def if_False mathRound_mono)
qed

section \<open>Quantization\<close>

text \<open>
  Claim C8. For every \<open>N \<ge> 2\<close>, \<open>v 0 N = 0\<close> and \<open>v (N - 1) N = 255\<close>; and for every
  \<open>N\<close> the function \<open>i \<mapsto> v i N\<close> is monotonically non-decreasing on \<open>0 \<le> i < N\<close>.
\<close>

theorem quantize_endpoints_monotone:
  "(2 \<le> N \<longrightarrow> v 0 N = 0 \<and> v (N - 1) N = 255) \<and>
   (0 \<le> i \<and> i \<le> j \<and> j < N \<longrightarrow> v i N \<le> v j N)"
  using v_zero v_top v_mono by simp

theorem quantize_endpoints_monotone_witness:
  "v 0 4 = 0 \<and> v (4 - 1) 4 = 255 \<and> v 1 4 \<le> v 2 4"
  using quantize_endpoints_monotone [of 4 1 2] by simp


section \<open>The tile index is a bijection\<close>

lemma tileIndexToRGB_inverse_nonneg:
  assumes "0 < N" "0 \<le> r" "r < N" "0 \<le> g" "g < N" "0 \<le> b"
  shows "tileIndexToRGB (r + g * N + b * (N * N)) N = (r, g, b)"
proof -
  have t0: "0 \<le> r + g * N + b * (N * N)" using assms by simp
  have split: "r + g * N + b * (N * N) = r + (g + b * N) * N" by (simp add: algebra_simps)
  have e1: "(r + g * N + b * (N * N)) mod N = r"
    using assms by (simp only: split mod_mult_self1 mod_pos_pos_trivial)
  have e2: "(r + g * N + b * (N * N)) div N = g + b * N"
    using assms by (simp only: split) simp
  have e3: "(g + b * N) mod N = g" using assms by (simp add: mod_pos_pos_trivial)
  have N0: "0 \<le> N" using assms by simp
  have "(r + g * N + b * (N * N)) div (N * N) = ((r + g * N + b * (N * N)) div N) div N"
    by (rule zdiv_zmult2_eq [OF N0])
  also have "\<dots> = (g + b * N) div N" by (simp only: e2)
  also have "\<dots> = b" using assms by simp
  finally have e4: "(r + g * N + b * (N * N)) div (N * N) = b" .
  show ?thesis using assms t0 by (simp only: tileIndexToRGB_nonneg e1 e2 e3 e4)
qed

lemma tileIndexToRGB_range:
  fixes N t :: int
  assumes "0 < N" "0 \<le> t" "t < N * N * N"
  shows "0 \<le> t mod N \<and> t mod N < N \<and> 0 \<le> (t div N) mod N \<and> (t div N) mod N < N \<and>
         0 \<le> t div (N * N) \<and> t div (N * N) < N"
proof -
  have NN: "0 < N * N" using assms by simp
  have "N * N * (t div (N * N)) \<le> t"
    using NN by (metis mult_div_mod_eq le_add_same_cancel1 pos_mod_sign)
  then have "N * N * (t div (N * N)) < N * N * N" using assms by linarith
  then have "t div (N * N) < N" using NN by (simp only: mult_less_cancel_left_pos)
  moreover have "0 \<le> t div (N * N)" using assms by (simp add: pos_imp_zdiv_nonneg_iff)
  ultimately show ?thesis using assms by simp
qed

lemma tileIndexToRGB_recompose:
  fixes N t :: int
  assumes "0 < N"
  shows "t mod N + (t div N) mod N * N + t div (N * N) * (N * N) = t"
proof -
  have N0: "0 \<le> N" using assms by simp
  have d: "t div (N * N) = (t div N) div N" by (rule zdiv_zmult2_eq [OF N0])
  have b: "(t div N) mod N + t div (N * N) * N = t div N"
    unfolding d by (rule mod_div_mult_eq)
  have "t mod N + (t div N) mod N * N + t div (N * N) * (N * N)
      = t mod N + ((t div N) mod N + t div (N * N) * N) * N"
    by (simp only: algebra_simps)
  also have "\<dots> = t mod N + (t div N) * N" by (simp only: b)
  also have "\<dots> = t" by (rule mod_div_mult_eq)
  finally show ?thesis .
qed

text \<open>
  Claim C3. For every \<open>N \<ge> 2\<close>, \<open>t \<mapsto> tileIndexToRGB t N\<close> restricted to
  \<open>0 \<le> t < N\<^sup>3\<close> has no duplicates and covers all of \<open>[0, N)\<^sup>3\<close>: it is a bijection
  onto \<open>[0, N)\<^sup>3\<close>, with inverse \<open>t = r + g \<sqdot> N + b \<sqdot> N\<^sup>2\<close>.
\<close>

theorem tileIndexToRGB_bijection:
  assumes "2 \<le> N"
  shows "bij_betw (\<lambda>t. tileIndexToRGB t N) {0..<N * N * N} ({0..<N} \<times> {0..<N} \<times> {0..<N}) \<and>
         (\<forall>t\<in>{0..<N * N * N}. \<forall>r g b. tileIndexToRGB t N = (r, g, b) \<longrightarrow> t = r + g * N + b * (N * N)) \<and>
         (\<forall>r\<in>{0..<N}. \<forall>g\<in>{0..<N}. \<forall>b\<in>{0..<N}.
            r + g * N + b * (N * N) \<in> {0..<N * N * N} \<and>
            tileIndexToRGB (r + g * N + b * (N * N)) N = (r, g, b))"
proof -
  have N: "0 < N" using assms by simp
  have fwd: "\<And>t. t \<in> {0..<N * N * N} \<Longrightarrow>
      tileIndexToRGB t N = (t mod N, (t div N) mod N, t div (N * N))"
    using N by (simp add: tileIndexToRGB_nonneg)
  have rec: "\<forall>t\<in>{0..<N * N * N}. \<forall>r g b. tileIndexToRGB t N = (r, g, b) \<longrightarrow> t = r + g * N + b * (N * N)"
    using tileIndexToRGB_recompose [OF N] by (auto simp: fwd)
  have bound: "\<And>r g b. \<lbrakk>0 \<le> r; r < N; 0 \<le> g; g < N; 0 \<le> b; b < N\<rbrakk> \<Longrightarrow> r + g * N + b * (N * N) < N * N * N"
  proof -
    fix r g b :: int assume a: "0 \<le> r" "r < N" "0 \<le> g" "g < N" "0 \<le> b" "b < N"
    have "g * N \<le> (N - 1) * N" using a N by (intro mult_right_mono) simp_all
    moreover have "b * (N * N) \<le> (N - 1) * (N * N)" using a N by (intro mult_right_mono) simp_all
    ultimately show "r + g * N + b * (N * N) < N * N * N" using a by (simp add: algebra_simps)
  qed
  have inv: "\<forall>r\<in>{0..<N}. \<forall>g\<in>{0..<N}. \<forall>b\<in>{0..<N}.
            r + g * N + b * (N * N) \<in> {0..<N * N * N} \<and>
            tileIndexToRGB (r + g * N + b * (N * N)) N = (r, g, b)"
    using N bound by (auto simp: tileIndexToRGB_inverse_nonneg)
  have inj: "inj_on (\<lambda>t. tileIndexToRGB t N) {0..<N * N * N}"
  proof (rule inj_onI)
    fix s t assume s: "s \<in> {0..<N * N * N}" and t: "t \<in> {0..<N * N * N}"
      and eq: "tileIndexToRGB s N = tileIndexToRGB t N"
    obtain r g b where rgb: "tileIndexToRGB t N = (r, g, b)" by (cases "tileIndexToRGB t N") auto
    from rec s eq rgb have "s = r + g * N + b * (N * N)" by auto
    moreover from rec t rgb have "t = r + g * N + b * (N * N)" by auto
    ultimately show "s = t" by simp
  qed
  have img: "(\<lambda>t. tileIndexToRGB t N) ` {0..<N * N * N} = {0..<N} \<times> {0..<N} \<times> {0..<N}"
  proof (rule set_eqI, rule iffI)
    fix x assume "x \<in> (\<lambda>t. tileIndexToRGB t N) ` {0..<N * N * N}"
    then obtain t where t: "t \<in> {0..<N * N * N}" and x: "x = tileIndexToRGB t N" by auto
    have "0 \<le> t" "t < N * N * N" using t by auto
    from tileIndexToRGB_range [OF N this] x fwd [OF t]
    show "x \<in> {0..<N} \<times> {0..<N} \<times> {0..<N}" by simp
  next
    fix x assume "x \<in> {0..<N} \<times> {0..<N} \<times> {0..<N}"
    then obtain r g b where x: "x = (r, g, b)" and m: "r \<in> {0..<N}" "g \<in> {0..<N}" "b \<in> {0..<N}"
      by auto
    from inv m have "r + g * N + b * (N * N) \<in> {0..<N * N * N}"
      and "tileIndexToRGB (r + g * N + b * (N * N)) N = (r, g, b)" by auto
    then show "x \<in> (\<lambda>t. tileIndexToRGB t N) ` {0..<N * N * N}" using x by (metis (mono_tags) imageI)
  qed
  show ?thesis using inj img rec inv by (simp add: bij_betw_def)
qed


theorem tileIndexToRGB_bijection_witness:
  "bij_betw (\<lambda>t. tileIndexToRGB t 2) {0..<2 * 2 * 2} ({0..<2} \<times> {0..<2} \<times> {0..<2}) \<and>
   tileIndexToRGB (1 + 0 * 2 + 1 * (2 * 2)) 2 = (1, 0, 1)"
proof -
  have h: "(2::int) \<le> 2" by simp
  note th = tileIndexToRGB_bijection [OF h]
  have m: "(1::int) \<in> {0..<2}" "(0::int) \<in> {0..<2}" by simp_all
  have "tileIndexToRGB (1 + 0 * 2 + 1 * (2 * 2)) 2 = (1, 0, 1)"
    using th m by blast
  then show ?thesis using th by blast
qed

section \<open>Geometry detection\<close>

lemma tryWide_SomeD:
  assumes "tryWide w h = Some geom"
  shows "\<exists>N M. geom = (N, M, wide) \<and> 2 \<le> N \<and> N \<le> 256 \<and> 1 \<le> M \<and> w = N * N * M \<and> h = N * M"
  using assms
  by (auto simp: tryWide_def Let_def le_floor_iff floor_le_iff split: if_splits)

lemma tryTall_SomeD:
  assumes "tryTall w h = Some geom"
  shows "\<exists>N M. geom = (N, M, tall) \<and> 2 \<le> N \<and> N \<le> 256 \<and> 1 \<le> M \<and> w = N * M \<and> h = N * N * M"
  using assms
  by (auto simp: tryTall_def Let_def le_floor_iff floor_le_iff split: if_splits)

lemma quot_NNM:
  assumes "2 \<le> N" "1 \<le> M"
  shows "(of_int (N * N * M) :: rat) / of_int (N * M) = of_int N"
    and "(of_int (N * M) :: rat) / of_int N = of_int M"
  using assms by simp_all

lemma tryWide_dims:
  assumes "2 \<le> N" "N \<le> 256" "1 \<le> M"
  shows "tryWide (N * N * M) (N * M) = Some (N, M, wide)"
proof -
  have h: "0 < N * M" using assms by simp
  have r1: "jsrem (N * N * M) (N * M) = 0"
    unfolding jsrem_zero_iff [OF h] by (simp add: mult.assoc)
  have N0: "0 < N" using assms by simp
  have r2: "jsrem (N * M) N = 0" unfolding jsrem_zero_iff [OF N0] by simp
  show ?thesis
    unfolding tryWide_def
    using assms h r1 r2
    by (simp only: quot_NNM Let_def floor_of_int isInteger_of_int) simp
qed

lemma tryTall_dims:
  assumes "2 \<le> N" "N \<le> 256" "1 \<le> M"
  shows "tryTall (N * M) (N * N * M) = Some (N, M, tall)"
proof -
  have h: "0 < N * M" using assms by simp
  have r1: "jsrem (N * N * M) (N * M) = 0"
    unfolding jsrem_zero_iff [OF h] by (simp add: mult.assoc)
  have N0: "0 < N" using assms by simp
  have r2: "jsrem (N * M) N = 0" unfolding jsrem_zero_iff [OF N0] by simp
  show ?thesis
    unfolding tryTall_def
    using assms h r1 r2
    by (simp only: quot_NNM Let_def floor_of_int isInteger_of_int) simp
qed

lemma wide_dims_gt:
  fixes N M :: int
  assumes "2 \<le> N" "1 \<le> M"
  shows "N * M < N * N * M"
proof -
  have "1 * (N * M) < N * (N * M)"
    using assms by (intro mult_strict_right_mono) simp_all
  then show ?thesis by (simp add: mult.assoc)
qed

lemma tryWide_tryTall_exclusive: "tryWide w h = None \<or> tryTall w h = None"
proof (rule ccontr)
  assume "\<not> (tryWide w h = None \<or> tryTall w h = None)"
  then obtain g1 g2 where g: "tryWide w h = Some g1" "tryTall w h = Some g2" by auto
  obtain N M where a: "2 \<le> N" "1 \<le> M" "w = N * N * M" "h = N * M"
    using tryWide_SomeD [OF g(1)] by auto
  obtain N' M' where b: "2 \<le> N'" "1 \<le> M'" "w = N' * M'" "h = N' * N' * M'"
    using tryTall_SomeD [OF g(2)] by auto
  have "h < w" using wide_dims_gt [OF a(1,2)] a by simp
  moreover have "w < h" using wide_dims_gt [OF b(1,2)] b by simp
  ultimately show False by simp
qed

text \<open>
  Claim C1, amended. For every \<open>N\<close> with \<open>2 \<le> N \<le> 256\<close>, every \<open>M \<ge> 1\<close> and either
  layout, \<open>detectGeometry\<close> applied to the width and height of \<open>computeDims N M layout\<close>
  returns exactly \<open>(N, M, layout)\<close>; for \<open>N = 4\<close>, \<open>M = 1\<close>, wide (16 by 4) it returns
  wide. (Both hypotheses of the detector refuse \<open>N > 256\<close>.)
\<close>

theorem detectGeometry_roundtrip:
  assumes "2 \<le> N" "N \<le> 256" "1 \<le> M" "computeDims N M layout = (tilesW, tilesH, width, height)"
  shows "detectGeometry width height = Inr (N, M, layout)"
proof (cases layout)
  case wide
  then have "width = N * N * M" "height = N * M"
    using assms(4) by (auto simp: computeDims_def Let_def)
  then show ?thesis using tryWide_dims [OF assms(1-3)] wide by (simp add: detectGeometry_def)
next
  case tall
  then have wh: "width = N * M" "height = N * N * M"
    using assms(4) by (auto simp: computeDims_def Let_def)
  have "tryTall width height = Some (N, M, tall)"
    using tryTall_dims [OF assms(1-3)] wh by simp
  moreover from this have "tryWide width height = None"
    using tryWide_tryTall_exclusive [of width height] by simp
  ultimately show ?thesis using tall by (simp add: detectGeometry_def)
qed

theorem detectGeometry_roundtrip_witness:
  "computeDims 4 1 wide = (16, 4, 16, 4) \<and> detectGeometry 16 4 = Inr (4, 1, wide)"
proof -
  have d: "computeDims 4 1 wide = (16, 4, 16, 4)" by (simp add: computeDims_def Let_def)
  show ?thesis using d detectGeometry_roundtrip [OF _ _ _ d] by simp
qed

text \<open>
  The claim as written (every \<open>N \<ge> 2\<close>) fails at \<open>N = 257\<close>, \<open>M = 1\<close>, wide: the image is
  66049 by 257 pixels and detection reports no geometry.
\<close>

theorem detectGeometry_roundtrip_counterexample:
  "computeDims 257 1 wide = (66049, 257, 66049, 257) \<and>
   detectGeometry 66049 257 = Inl GeometryUndetectable"
  by (simp add: computeDims_def Let_def detectGeometry_def tryWide_def tryTall_def jsrem_def isInteger_def)

text \<open>
  Claim C9. For every pair \<open>(width, height)\<close> the wide hypothesis and the tall hypothesis
  never both succeed, so the result of \<open>detectGeometry\<close> is the same when the tall
  hypothesis is tried first.
\<close>

theorem detectGeometry_order_independent:
  "(tryWide width height = None \<or> tryTall width height = None) \<and>
   detectGeometry width height =
     (case tryTall width height of
        Some geom \<Rightarrow> Inr geom
      | None \<Rightarrow> (case tryWide width height of Some geom \<Rightarrow> Inr geom | None \<Rightarrow> Inl GeometryUndetectable))"
  using tryWide_tryTall_exclusive [of width height]
  by (auto simp: detectGeometry_def split: option.splits)

section \<open>Loops\<close>
lemma forM_append:
  "forM (xs @ ys) s body = (case forM xs s body of Inl e \<Rightarrow> Inl e | Inr s' \<Rightarrow> forM ys s' body)"
  by (induction xs arbitrary: s) (auto split: sum.splits)

lemma indices_pos: "0 < n \<Longrightarrow> indices n = 0 # map int [1..<nat n]"
  by (simp add: indices_def upt_conv_Cons)

lemma length_indices: "length (indices n) = nat n"
  by (simp add: indices_def)

lemma set_indices: "set (indices n) = {0..<n}"
proof -
  have "k \<in> int ` {0..<nat n} \<longleftrightarrow> 0 \<le> k \<and> k < n" for k
  proof
    assume "k \<in> int ` {0..<nat n}"
    then show "0 \<le> k \<and> k < n" by auto
  next
    assume a: "0 \<le> k \<and> k < n"
    then have "nat k \<in> {0..<nat n}" by simp
    then have "int (nat k) \<in> int ` {0..<nat n}" by (rule imageI)
    then show "k \<in> int ` {0..<nat n}" using a by simp
  qed
  then show ?thesis by (auto simp: indices_def)
qed

lemma forM_upto_rule:
  assumes init: "I 0 s0"
    and step: "\<And>k s. k < m \<Longrightarrow> I (int k) s \<Longrightarrow>
                 (case body (int k) s of Inl e \<Rightarrow> E e | Inr s' \<Rightarrow> I (int k + 1) s')"
  shows "case forM (map int [0..<m]) s0 body of Inl e \<Rightarrow> E e | Inr s' \<Rightarrow> I (int m) s'"
  using step
proof (induction m)
  case 0
  then show ?case using init by simp
next
  case (Suc m)
  have IH: "case forM (map int [0..<m]) s0 body of Inl e \<Rightarrow> E e | Inr s' \<Rightarrow> I (int m) s'"
    by (rule Suc.IH) (simp add: Suc.prems)
  show ?case
  proof (cases "forM (map int [0..<m]) s0 body")
    case (Inl e)
    then show ?thesis using IH by (simp add: forM_append)
  next
    case (Inr s')
    then have "I (int m) s'" using IH by simp
    then have "case body (int m) s' of Inl e \<Rightarrow> E e | Inr s'' \<Rightarrow> I (int m + 1) s''"
      by (intro Suc.prems) simp_all
    then show ?thesis using Inr
      by (auto simp: forM_append add.commute split: sum.splits)
  qed
qed

lemma forM_indices_rule:
  assumes init: "I 0 s0"
    and step: "\<And>k s. 0 \<le> k \<Longrightarrow> k < n \<Longrightarrow> I k s \<Longrightarrow>
                 (case body k s of Inl e \<Rightarrow> E e | Inr s' \<Rightarrow> I (k + 1) s')"
  shows "case forM (indices n) s0 body of Inl e \<Rightarrow> E e | Inr s' \<Rightarrow> I (max 0 n) s'"
proof -
  have "case forM (map int [0..<nat n]) s0 body of Inl e \<Rightarrow> E e | Inr s' \<Rightarrow> I (int (nat n)) s'"
    by (rule forM_upto_rule [where I = I and E = E, OF init]) (rule step, simp_all)
  moreover have "int (nat n) = max 0 n" by simp
  ultimately show ?thesis by (simp only: indices_def)
qed

section \<open>Pattern generation: the dimension limit\<close>

lemma patternStep_cancelled:
  "cancelRef yields \<Longrightarrow> patternStep N M layout cancelRef t (cv, yields) = Inl Cancelled"
  by (simp add: patternStep_def)

lemma patternStep_error:
  "patternStep N M layout cancelRef t st = Inl e \<Longrightarrow> e = Cancelled"
  by (auto simp: patternStep_def Let_def split: prod.splits if_splits)

lemma pattern_loop_error:
  "forM xs st (patternStep N M layout cancelRef) = Inl e \<Longrightarrow> e = Cancelled"
  by (induction xs arbitrary: st) (auto split: sum.splits dest: patternStep_error)

lemma le_zdiv_iff:
  fixes c m d :: int
  assumes c: "0 < c"
  shows "c * m \<le> d \<longleftrightarrow> m \<le> d div c"
proof
  assume a: "c * m \<le> d"
  show "m \<le> d div c"
  proof (rule ccontr)
    assume "\<not> m \<le> d div c"
    then have "d div c + 1 \<le> m" by simp
    then have "c * (d div c + 1) \<le> c * m" using c by (simp only: mult_le_cancel_left_pos)
    moreover have "d mod c < c" using c by simp
    moreover have "c * (d div c) + d mod c = d" by simp
    ultimately show False using a by (simp add: algebra_simps)
  qed
next
  assume "m \<le> d div c"
  then have "c * m \<le> c * (d div c)" using c by (simp only: mult_le_cancel_left_pos)
  moreover have "0 \<le> d mod c" using c by simp
  moreover have "c * (d div c) + d mod c = d" by simp
  ultimately show "c * m \<le> d" by linarith
qed

text \<open>
  Claim C5, amended. Pattern generation fails with the dimension-limit error exactly when
  the computed width or height exceeds the capability value; the error reports the
  offending dimensions, the capability value, \<open>N\<close> and the bound
  \<open>max 1 \<lfloor>maxDim / N\<^sup>2\<rfloor>\<close>, which is the largest \<open>M\<close> that fits whenever \<open>N \<ge> 1\<close> and
  \<open>N\<^sup>2 \<le> maxDim\<close>; when both dimensions are within the limit no such error is raised.
\<close>

theorem dimension_limit:
  assumes dims: "computeDims N M layout = (tilesW, tilesH, width, height)"
  shows "((\<exists>w h d n m. generateStep1Pattern hst N M layout cancelRef
              = Inl (DimensionLimitExceeded w h d n m))
            \<longleftrightarrow> (width > canvasMaxDim hst \<or> height > canvasMaxDim hst)) \<and>
         (width > canvasMaxDim hst \<or> height > canvasMaxDim hst \<longrightarrow>
            generateStep1Pattern hst N M layout cancelRef
              = Inl (DimensionLimitExceeded width height (canvasMaxDim hst) N
                       (max 1 (canvasMaxDim hst div (N * N))))) \<and>
         (1 \<le> N \<and> N * N \<le> canvasMaxDim hst \<longrightarrow>
            (\<forall>M'. 1 \<le> M' \<longrightarrow>
               ((case computeDims N M' layout of (tw, th, w', h') \<Rightarrow>
                    w' \<le> canvasMaxDim hst \<and> h' \<le> canvasMaxDim hst)
                \<longleftrightarrow> M' \<le> max 1 (canvasMaxDim hst div (N * N)))))"
proof (intro conjI impI allI)
  show "(\<exists>w h d n m. generateStep1Pattern hst N M layout cancelRef
              = Inl (DimensionLimitExceeded w h d n m))
            \<longleftrightarrow> (width > canvasMaxDim hst \<or> height > canvasMaxDim hst)"
    using dims
    by (auto simp: generateStep1Pattern_def Let_def split: sum.splits prod.splits
             dest: pattern_loop_error)
next
  assume "width > canvasMaxDim hst \<or> height > canvasMaxDim hst"
  then show "generateStep1Pattern hst N M layout cancelRef
              = Inl (DimensionLimitExceeded width height (canvasMaxDim hst) N
                       (max 1 (canvasMaxDim hst div (N * N))))"
    using dims
    by (simp add: generateStep1Pattern_def Let_def floor_divide_of_int_eq del: of_int_mult)
next
  fix M' :: int
  assume N: "1 \<le> N \<and> N * N \<le> canvasMaxDim hst" and M': "1 \<le> M'"
  let ?D = "canvasMaxDim hst"
  have NN: "0 < N * N" using N by simp
  have q1: "1 \<le> ?D div (N * N)" using N pos_imp_zdiv_pos_iff [OF NN, of ?D] by linarith
  have small: "N * M' \<le> N * N * M'"
  proof -
    have "1 * (N * M') \<le> N * (N * M')" using N M' by (intro mult_right_mono) simp_all
    then show ?thesis by (simp add: mult.assoc)
  qed
  have fit: "N * N * M' \<le> ?D \<longleftrightarrow> M' \<le> ?D div (N * N)"
    by (rule le_zdiv_iff [OF NN])
  show "(case computeDims N M' layout of (tw, th, w', h') \<Rightarrow> w' \<le> ?D \<and> h' \<le> ?D)
          \<longleftrightarrow> M' \<le> max 1 (?D div (N * N))"
    using small fit q1 by (cases layout) (auto simp: computeDims_def Let_def)
qed


theorem dimension_limit_witness:
  "generateStep1Pattern \<lparr>canvasMaxDim = 16384, context2d = True, pngEncodes = True\<rparr> 4 2000 wide (\<lambda>k. False)
     = Inl (DimensionLimitExceeded 32000 8000 16384 4 1024) \<and>
   (case computeDims 4 1024 wide of (tw, th, w', h') \<Rightarrow> w' \<le> 16384 \<and> h' \<le> 16384) \<and>
   \<not> (case computeDims 4 1025 wide of (tw, th, w', h') \<Rightarrow> w' \<le> 16384 \<and> h' \<le> 16384)"
proof -
  let ?h = "\<lparr>canvasMaxDim = 16384, context2d = True, pngEncodes = True\<rparr>"
  have d: "computeDims 4 2000 wide = (16, 4, 32000, 8000)" by (simp add: computeDims_def Let_def)
  note th = dimension_limit [OF d, of ?h "\<lambda>k. False"]
  have e: "generateStep1Pattern ?h 4 2000 wide (\<lambda>k. False)
     = Inl (DimensionLimitExceeded 32000 8000 16384 4 1024)"
    using th by simp
  have f: "(case computeDims 4 1024 wide of (tw, th, w', h') \<Rightarrow> w' \<le> 16384 \<and> h' \<le> 16384)"
    using th by simp
  have g: "\<not> (case computeDims 4 1025 wide of (tw, th, w', h') \<Rightarrow> w' \<le> 16384 \<and> h' \<le> 16384)"
    using th by simp
  show ?thesis using e f g by blast
qed

text \<open>
  The claim as written (the error reports \<open>\<lfloor>maxDim / N\<^sup>2\<rfloor>\<close>) fails at \<open>N = 200\<close>, \<open>M = 1\<close>,
  wide, with a capability of 16384: the quotient is 0 and the error reports 1, although
  the image of tile size 1 (40000 by 200) does not fit.
\<close>

theorem dimension_limit_counterexample:
  "generateStep1Pattern \<lparr>canvasMaxDim = 16384, context2d = True, pngEncodes = True\<rparr> 200 1 wide (\<lambda>k. False)
     = Inl (DimensionLimitExceeded 40000 200 16384 200 1) \<and>
   \<lfloor>(16384 :: rat) / (200 * 200)\<rfloor> = 0 \<and>
   computeDims 200 1 wide = (40000, 200, 40000, 200)"
  by (simp add: generateStep1Pattern_def computeDims_def Let_def floor_eq_iff)

section \<open>Cancellation\<close>

lemma filterRow_cancelled:
  "cancelRef yields \<Longrightarrow> filterRow filterFn width height cancelRef y (data, processed, yields) = Inl Cancelled"
  by (simp add: filterRow_def)

lemma cubeCell_cancelled:
  "cancelRef yields \<Longrightarrow> cubeCell img N M layout cancelRef b g r (lines, dn, yields) = Inl Cancelled"
  by (simp add: cubeCell_def)

text \<open>
  Claim C7, amended. If the cancellation flag is already set when the operation starts,
  no operation returns a blob or file: pixel filtering (of an image with at least one
  row) and LUT sampling (\<open>N \<ge> 1\<close>) raise \<open>Cancelled\<close>; pattern generation (\<open>N \<ge> 1\<close>) raises
  the dimension-limit error when the computed width or height exceeds the capability
  value, otherwise the missing-2D-context error when there is no 2D context, and
  otherwise \<open>Cancelled\<close>.
\<close>

theorem cancelled_at_start:
  assumes flag: "cancelRef 0"
  shows "(1 \<le> N \<longrightarrow>
            generateStep1Pattern hst N M layout cancelRef =
              (case computeDims N M layout of (tilesW, tilesH, width, height) \<Rightarrow>
                 if width > canvasMaxDim hst \<or> height > canvasMaxDim hst then
                   Inl (DimensionLimitExceeded width height (canvasMaxDim hst) N
                          (max 1 (canvasMaxDim hst div (N * N))))
                 else if \<not> context2d hst then Inl Context2DUnavailable
                 else Inl Cancelled)) \<and>
         (1 \<le> height \<longrightarrow> applyStep2Filter img width height filterFn cancelRef = Inl Cancelled) \<and>
         (1 \<le> N \<longrightarrow> generateCubeLut img (N, M, layout) cancelRef = Inl Cancelled)"
proof (intro conjI impI)
  assume N: "1 \<le> N"
  have loop: "forM (indices (N * N * N)) (cv, 0) (patternStep N M layout cancelRef) = Inl Cancelled" for cv
    using N flag by (simp add: indices_pos patternStep_cancelled)
  show "generateStep1Pattern hst N M layout cancelRef =
              (case computeDims N M layout of (tilesW, tilesH, width, height) \<Rightarrow>
                 if width > canvasMaxDim hst \<or> height > canvasMaxDim hst then
                   Inl (DimensionLimitExceeded width height (canvasMaxDim hst) N
                          (max 1 (canvasMaxDim hst div (N * N))))
                 else if \<not> context2d hst then Inl Context2DUnavailable
                 else Inl Cancelled)"
    by (simp add: generateStep1Pattern_def Let_def loop floor_divide_of_int_eq
        split: prod.splits del: of_int_mult)
next
  assume "1 \<le> height"
  then show "applyStep2Filter img width height filterFn cancelRef = Inl Cancelled"
    using flag by (simp add: applyStep2Filter_def indices_pos filterRow_cancelled)
next
  assume "1 \<le> N"
  then show "generateCubeLut img (N, M, layout) cancelRef = Inl Cancelled"
    using flag by (simp add: generateCubeLut_def indices_pos cubeCell_cancelled)
qed

theorem cancelled_at_start_witness:
  "generateStep1Pattern \<lparr>canvasMaxDim = 16384, context2d = True, pngEncodes = True\<rparr> 4 2 wide (\<lambda>k. True)
     = Inl Cancelled \<and>
   generateStep1Pattern \<lparr>canvasMaxDim = 16384, context2d = False, pngEncodes = True\<rparr> 4 2 wide (\<lambda>k. True)
     = Inl Context2DUnavailable \<and>
   applyStep2Filter \<lparr>img_data = [1, 2, 3, 255], img_width = 1, img_height = 1\<rparr> 1 1
     (compilePixelFilter (\<lambda>n R G B X Y W H. Finishes R G B R G B)) (\<lambda>k. True) = Inl Cancelled \<and>
   generateCubeLut \<lparr>img_data = [1, 2, 3, 255], img_width = 1, img_height = 1\<rparr> (4, 2, wide) (\<lambda>k. True)
     = Inl Cancelled"
proof -
  let ?h = "\<lparr>canvasMaxDim = 16384, context2d = True, pngEncodes = True\<rparr>"
  let ?h' = "\<lparr>canvasMaxDim = 16384, context2d = False, pngEncodes = True\<rparr>"
  let ?img = "\<lparr>img_data = [1, 2, 3, 255], img_width = 1, img_height = 1\<rparr>"
  have flag: "(\<lambda>k :: nat. True) 0" by simp
  note th = cancelled_at_start [where cancelRef = "\<lambda>k. True", OF flag,
      of 4 ?h 2 wide 1 ?img 1 "compilePixelFilter (\<lambda>n R G B X Y W H. Finishes R G B R G B)"]
  note th' = cancelled_at_start [where cancelRef = "\<lambda>k. True", OF flag,
      of 4 ?h' 2 wide 1 ?img 1 "compilePixelFilter (\<lambda>n R G B X Y W H. Finishes R G B R G B)"]
  have d: "computeDims 4 2 wide = (16, 4, 32, 8)" by (simp add: computeDims_def Let_def)
  show ?thesis using th th' d by simp
qed

text \<open>
  The claim as written (the operation raises \<open>Cancelled\<close>) fails for pattern generation
  at \<open>N = 4\<close>, \<open>M = 1000\<close>, wide, with a capability of 8192 and the flag set: the
  dimension check comes first and raises its own error.
\<close>

theorem cancelled_at_start_counterexample:
  "generateStep1Pattern \<lparr>canvasMaxDim = 8192, context2d = True, pngEncodes = True\<rparr> 4 1000 wide (\<lambda>k. True)
     = Inl (DimensionLimitExceeded 16000 4000 8192 4 512) \<and>
   generateStep1Pattern \<lparr>canvasMaxDim = 8192, context2d = True, pngEncodes = True\<rparr> 4 1000 wide (\<lambda>k. True)
     \<noteq> Inl Cancelled"
  by (simp add: generateStep1Pattern_def computeDims_def Let_def floor_eq_iff)

section \<open>The sampler stays inside the image\<close>

lemma byte_bounds: "0 \<le> uint (x :: byte) \<and> uint x \<le> 255"
  using uint_lt2p [of x] by simp

lemma byte_bounds_rat: "0 \<le> (of_int (uint (x :: byte)) :: rat) \<and> (of_int (uint x) :: rat) \<le> 255"
proof -
  have "(of_int 0 :: rat) \<le> of_int (uint x) \<and> (of_int (uint x) :: rat) \<le> of_int 255"
    using byte_bounds [of x] by (simp only: of_int_le_iff)
  then show ?thesis by simp
qed

lemma sampleCoord_bounds:
  "1 \<le> limit \<Longrightarrow> 0 \<le> sampleCoord limit c0 k step \<and> sampleCoord limit c0 k step \<le> limit - 1"
  by (simp add: sampleCoord_def)

lemma samplePoints_in_image:
  assumes "1 \<le> imgW" "1 \<le> imgH" "(px, py) \<in> set (samplePoints imgW imgH tileX tileY M)"
  shows "0 \<le> px \<and> px \<le> imgW - 1 \<and> 0 \<le> py \<and> py \<le> imgH - 1"
proof -
  obtain c0 c1 k0 k1 st where "px = sampleCoord imgW c0 k0 st" "py = sampleCoord imgH c1 k1 st"
    using assms(3) unfolding samplePoints_def Let_def by auto
  then show ?thesis using sampleCoord_bounds assms(1,2) by simp
qed

lemma length_concat_const:
  "(\<And>x. x \<in> set xs \<Longrightarrow> length (f x) = n) \<Longrightarrow> length (concat (map f xs)) = length xs * n"
  by (induction xs) simp_all

lemma length_samplePoints:
  "length (samplePoints imgW imgH tileX tileY M)
     = nat (max 1 (min 8 (M - sampleMargin M * 2))) * nat (max 1 (min 8 (M - sampleMargin M * 2)))"
  unfolding samplePoints_def Let_def
  by (subst length_concat_const [where n = "nat (max 1 (min 8 (M - sampleMargin M * 2)))"])
     (simp_all add: length_indices)

lemma samplePoints_nonempty: "1 \<le> length (samplePoints imgW imgH tileX tileY M)"
  unfolding length_samplePoints by (simp add: Suc_le_eq)

lemma pixel_index_in_range:
  fixes imgW imgH px py :: int
  assumes "0 \<le> px" "px \<le> imgW - 1" "0 \<le> py" "py \<le> imgH - 1"
  shows "0 \<le> (py * imgW + px) * 4 \<and> (py * imgW + px) * 4 + 3 < imgW * imgH * 4"
proof -
  have W: "0 \<le> imgW" using assms by simp
  have a: "py * imgW \<le> (imgH - 1) * imgW" using assms W by (intro mult_right_mono) simp_all
  have b: "0 \<le> py * imgW" using assms W by simp
  have "(imgH - 1) * imgW = imgW * imgH - imgW" by (simp add: algebra_simps)
  then show ?thesis using a b assms by simp
qed

lemma fold_addSample_bounds:
  assumes "\<forall>(px, py) \<in> set pts. 0 \<le> (py * imgW + px) * 4 \<and> nat ((py * imgW + px) * 4 + 2) < length data"
  shows "\<exists>a' b' c'. fold (addSample data imgW) pts (Fin a, Fin b, Fin c, n)
            = (Fin a', Fin b', Fin c', n + length pts) \<and>
          a \<le> a' \<and> a' \<le> a + 255 * of_nat (length pts) \<and>
          b \<le> b' \<and> b' \<le> b + 255 * of_nat (length pts) \<and>
          c \<le> c' \<and> c' \<le> c + 255 * of_nat (length pts)"
  using assms
proof (induction pts arbitrary: a b c n)
  case Nil
  then show ?case by simp
next
  case (Cons pt pts)
  obtain px py where pt: "pt = (px, py)" by (cases pt)
  let ?i = "(py * imgW + px) * 4"
  have r: "0 \<le> ?i" "nat (?i + 2) < length data" using Cons.prems pt by auto
  then have r0: "nat ?i < length data" and r1: "nat (?i + 1) < length data" by linarith+
  define x where "x = (of_int (uint (data ! nat ?i)) :: rat)"
  define y where "y = (of_int (uint (data ! nat (?i + 1))) :: rat)"
  define z where "z = (of_int (uint (data ! nat (?i + 2))) :: rat)"
  have xb: "0 \<le> x \<and> x \<le> 255" unfolding x_def by (rule byte_bounds_rat)
  have yb: "0 \<le> y \<and> y \<le> 255" unfolding y_def by (rule byte_bounds_rat)
  have zb: "0 \<le> z \<and> z \<le> 255" unfolding z_def by (rule byte_bounds_rat)
  have stp: "addSample data imgW pt (Fin a, Fin b, Fin c, n) = (Fin (a + x), Fin (b + y), Fin (c + z), Suc n)"
    using r r0 r1 by (simp add: addSample_def pt Let_def readByte_def x_def y_def z_def)
  have rest: "\<forall>(px, py) \<in> set pts. 0 \<le> (py * imgW + px) * 4 \<and> nat ((py * imgW + px) * 4 + 2) < length data"
    using Cons.prems by simp
  from Cons.IH [OF rest, of "a + x" "b + y" "c + z" "Suc n"]
  obtain a' b' c' where
    f: "fold (addSample data imgW) pts (Fin (a + x), Fin (b + y), Fin (c + z), Suc n)
          = (Fin a', Fin b', Fin c', Suc n + length pts)"
    and ba: "a + x \<le> a'" "a' \<le> a + x + 255 * of_nat (length pts)"
    and bb: "b + y \<le> b'" "b' \<le> b + y + 255 * of_nat (length pts)"
    and bc: "c + z \<le> c'" "c' \<le> c + z + 255 * of_nat (length pts)"
    by blast
  have "fold (addSample data imgW) (pt # pts) (Fin a, Fin b, Fin c, n)
          = (Fin a', Fin b', Fin c', n + length (pt # pts))"
    using f stp by simp
  moreover have "a \<le> a' \<and> a' \<le> a + 255 * of_nat (length (pt # pts))"
    using ba xb by (simp add: algebra_simps)
  moreover have "b \<le> b' \<and> b' \<le> b + 255 * of_nat (length (pt # pts))"
    using bb yb by (simp add: algebra_simps)
  moreover have "c \<le> c' \<and> c' \<le> c + 255 * of_nat (length (pt # pts))"
    using bc zb by (simp add: algebra_simps)
  ultimately show ?case by blast
qed

lemma mean_in_byte_range:
  fixes q :: rat
  assumes "0 \<le> q" "q \<le> 255 * of_nat n" "1 \<le> n"
  shows "0 \<le> q / of_nat n \<and> q / of_nat n \<le> 255"
proof -
  have n: "(0::rat) < of_nat n" using assms by simp
  show ?thesis using assms n by (simp add: pos_divide_le_eq)
qed

text \<open>
  Claim C10. For every pixel buffer of width and height at least 1 (four bytes per
  pixel), every tile position, also one outside the image, and every \<open>M \<ge> 1\<close>:
  each sample coordinate of \<open>sampleTileColor\<close> lies in \<open>[0, width - 1] \<times> [0, height - 1]\<close>
  and its three reads are inside the array, the sample count is at least 1, and each
  returned channel average is a finite number in \<open>[0, 255]\<close>.
\<close>

theorem sampleTileColor_in_bounds:
  assumes "1 \<le> imgW" "1 \<le> imgH" "1 \<le> M" "length data = nat (imgW * imgH * 4)"
  shows "(\<forall>(px, py) \<in> set (samplePoints imgW imgH tileX tileY M).
            0 \<le> px \<and> px \<le> imgW - 1 \<and> 0 \<le> py \<and> py \<le> imgH - 1 \<and>
            0 \<le> (py * imgW + px) * 4 \<and> nat ((py * imgW + px) * 4 + 2) < length data) \<and>
         (\<exists>sumR sumG sumB count.
            sampleSums data imgW imgH tileX tileY M = (sumR, sumG, sumB, count) \<and> 1 \<le> count) \<and>
         (\<exists>r g b. sampleTileColor data imgW imgH tileX tileY M = (Fin r, Fin g, Fin b) \<and>
            0 \<le> r \<and> r \<le> 255 \<and> 0 \<le> g \<and> g \<le> 255 \<and> 0 \<le> b \<and> b \<le> 255)"
proof -
  let ?pts = "samplePoints imgW imgH tileX tileY M"
  have pts: "\<forall>(px, py) \<in> set ?pts.
            0 \<le> px \<and> px \<le> imgW - 1 \<and> 0 \<le> py \<and> py \<le> imgH - 1 \<and>
            0 \<le> (py * imgW + px) * 4 \<and> nat ((py * imgW + px) * 4 + 2) < length data"
  proof (clarify)
    fix px py assume m: "(px, py) \<in> set ?pts"
    have c: "0 \<le> px \<and> px \<le> imgW - 1 \<and> 0 \<le> py \<and> py \<le> imgH - 1"
      using samplePoints_in_image [OF assms(1,2) m] .
    then have "0 \<le> (py * imgW + px) * 4 \<and> (py * imgW + px) * 4 + 3 < imgW * imgH * 4"
      by (intro pixel_index_in_range) simp_all
    then have "0 \<le> (py * imgW + px) * 4 \<and> nat ((py * imgW + px) * 4 + 2) < length data"
      using assms(4) by simp
    with c show "0 \<le> px \<and> px \<le> imgW - 1 \<and> 0 \<le> py \<and> py \<le> imgH - 1 \<and>
            0 \<le> (py * imgW + px) * 4 \<and> nat ((py * imgW + px) * 4 + 2) < length data" by simp
  qed
  then have rd: "\<forall>(px, py) \<in> set ?pts. 0 \<le> (py * imgW + px) * 4 \<and> nat ((py * imgW + px) * 4 + 2) < length data"
    by auto
  from fold_addSample_bounds [OF rd, of 0 0 0 0]
  obtain a b c where
    f: "sampleSums data imgW imgH tileX tileY M = (Fin a, Fin b, Fin c, length ?pts)"
    and ba: "0 \<le> a" "a \<le> 255 * of_nat (length ?pts)"
    and bb: "0 \<le> b" "b \<le> 255 * of_nat (length ?pts)"
    and bc: "0 \<le> c" "c \<le> 255 * of_nat (length ?pts)"
    unfolding sampleSums_def by auto
  have n: "1 \<le> length ?pts" by (rule samplePoints_nonempty)
  have cnt: "\<exists>sumR sumG sumB count.
            sampleSums data imgW imgH tileX tileY M = (sumR, sumG, sumB, count) \<and> 1 \<le> count"
    using f n by blast
  have n0: "length ?pts \<noteq> 0" using n by linarith
  have res: "sampleTileColor data imgW imgH tileX tileY M
      = (Fin (a / of_nat (length ?pts)), Fin (b / of_nat (length ?pts)), Fin (c / of_nat (length ?pts)))"
    unfolding sampleTileColor_def f using n0 by simp
  have "\<exists>r g b. sampleTileColor data imgW imgH tileX tileY M = (Fin r, Fin g, Fin b) \<and>
            0 \<le> r \<and> r \<le> 255 \<and> 0 \<le> g \<and> g \<le> 255 \<and> 0 \<le> b \<and> b \<le> 255"
    using res mean_in_byte_range [OF ba n] mean_in_byte_range [OF bb n] mean_in_byte_range [OF bc n]
    by blast
  with pts cnt show ?thesis by blast
qed


theorem sampleTileColor_in_bounds_witness:
  "\<exists>r g b. sampleTileColor [10, 20, 30, 255] 1 1 5 (- 3) 1 = (Fin r, Fin g, Fin b) \<and>
      0 \<le> r \<and> r \<le> 255 \<and> 0 \<le> g \<and> g \<le> 255 \<and> 0 \<le> b \<and> b \<le> 255"
proof -
  have one: "(1::int) \<le> 1" by simp
  have len: "length [10, 20, 30, 255 :: byte] = nat (1 * 1 * 4)" by simp
  from sampleTileColor_in_bounds [OF one one one len, of 5 "- 3"] show ?thesis by blast
qed

section \<open>The pixel filter\<close>

subsection \<open>Pixel indices and bytes\<close>

lemma pixel_index_facts:
  fixes width height x y :: int
  assumes "0 \<le> x" "x < width" "0 \<le> y" "y < height"
  shows "0 \<le> y * width + x" "y * width + x < width * height"
    "(y * width + x) mod width = x" "(y * width + x) div width = y"
proof -
  have W: "0 < width" using assms by simp
  show "0 \<le> y * width + x" using assms W by simp
  have "y * width \<le> (height - 1) * width" using assms W by (intro mult_right_mono) simp_all
  moreover have "(height - 1) * width = width * height - width" by (simp add: algebra_simps)
  ultimately show "y * width + x < width * height" using assms by simp
  show "(y * width + x) mod width = x" using assms by (simp add: mod_pos_pos_trivial)
  show "(y * width + x) div width = y" using assms by simp
qed

lemma uint_of_int_byte: "0 \<le> k \<Longrightarrow> k \<le> 255 \<Longrightarrow> uint (of_int k :: byte) = k"
  by (simp add: uint_word_of_int take_bit_int_eq_self)

subsection \<open>Packing and unpacking the three channels\<close>




lemma and_255: fixes k :: int shows "k AND 255 = k mod 256"
proof -
  have "k AND mask 8 = take_bit 8 k" by (simp add: take_bit_eq_mask)
  then show ?thesis by (simp add: take_bit_int_def mask_eq_exp_minus_1)
qed




lemma and_255_bounds: fixes k :: int shows "0 \<le> k AND 255 \<and> k AND 255 \<le> 255"
  unfolding and_255 by simp

subsection \<open>One call of the compiled filter\<close>






lemma compilePixelFilter_throws:
  "userCode n R G B X Y W H = Throws err \<Longrightarrow> compilePixelFilter userCode n R G B X Y W H = Inl err"
  by (simp add: compilePixelFilter_def)


subsection \<open>One pixel, one row, the whole pass\<close>

lemma writeByte_byte:
  assumes "0 \<le> i" "nat i < length data" "0 \<le> n" "n \<le> 255"
  shows "writeByte data i n = data[nat i := of_int n]"
  using assms by (simp add: writeByte_def)


lemma filteredUpto_init: "filteredUpto filterFn width height data 0 data"
  by (auto simp: filteredUpto_def)

lemma filterPixel_step:
  assumes wf: "length data = nat (width * height * 4)"
    and xy: "0 \<le> x" "x < width" "0 \<le> y" "y < height"
    and inv: "filteredUpto filterFn width height data (y * width + x) data'"
  shows "case filterPixel filterFn width height cancelRef y x (data', y * width + x, yields) of
           Inl e \<Rightarrow> filterFailure filterFn width height cancelRef data e
         | Inr st \<Rightarrow> filteredUpto filterFn width height data (y * width + x + 1) (fst st) \<and>
                    fst (snd st) = y * width + x + 1"
proof -
  define p where "p = y * width + x"
  define i where "i = p * 4"
  note pf = pixel_index_facts [OF xy, folded p_def]
  have i0: "0 \<le> i" using pf(1) by (simp add: i_def)
  have iN: "i + 3 < width * height * 4" using pf(2) by (simp add: i_def)
  have len: "length data' = length data" using inv by (simp add: filteredUpto_def)
  have rest: "\<And>j. i \<le> j \<Longrightarrow> data' ! nat j = data ! nat j"
    using inv by (simp add: filteredUpto_def p_def i_def)
  have before: "\<And>q. 0 \<le> q \<Longrightarrow> q < p \<Longrightarrow>
      (\<exists>packed. filterAt filterFn data width height q = Inr packed \<and>
           uint (data' ! nat (q * 4)) = shr32 packed 16 AND 255 \<and>
           uint (data' ! nat (q * 4 + 1)) = shr32 packed 8 AND 255 \<and>
           uint (data' ! nat (q * 4 + 2)) = signed_take_bit 31 packed AND 255 \<and>
           data' ! nat (q * 4 + 3) = data ! nat (q * 4 + 3))"
    using inv by (simp add: filteredUpto_def p_def)
  have in0: "nat i < length data" and in1: "nat (i + 1) < length data"
    and in2: "nat (i + 2) < length data"
    using i0 iN wf by simp_all
  have rd': "readByte data' i = readByte data i" "readByte data' (i + 1) = readByte data (i + 1)"
    "readByte data' (i + 2) = readByte data (i + 2)"
    using i0 in0 in1 in2 rest [of i] rest [of "i + 1"] rest [of "i + 2"]
    by (simp_all add: readByte_def len)
  have fa: "filterAt filterFn data width height p
      = filterFn (nat p) (readByte data i) (readByte data (i + 1)) (readByte data (i + 2))
          x y width height"
    unfolding filterAt_def i_def [symmetric] pf(3,4) ..
  have fp: "filterPixel filterFn width height cancelRef y x (data', p, yields)
      = (case filterAt filterFn data width height p of
           Inl err \<Rightarrow> Inl (catchFilterError x y err)
         | Inr packed \<Rightarrow>
             let data1 = writeByte data' i (shr32 packed 16 AND 255);
                 data2 = writeByte data1 (i + 1) (shr32 packed 8 AND 255);
                 data3 = writeByte data2 (i + 2) (signed_take_bit 31 packed AND 255);
                 processed1 = p + 1 in
             if jsrem processed1 150000 = 0 then
               (if cancelRef (Suc yields) then Inl Cancelled
                else Inr (data3, processed1, Suc yields))
             else Inr (data3, processed1, yields))"
    unfolding filterPixel_def prod.case Let_def p_def [symmetric] i_def [symmetric] rd' fa ..
  show ?thesis
  proof (cases "filterAt filterFn data width height p")
    case (Inl err)
    have res: "filterPixel filterFn width height cancelRef y x (data', p, yields)
        = Inl (catchFilterError x y err)"
      unfolding fp Inl by simp
    have prev: "\<forall>q. 0 \<le> q \<and> q < p \<longrightarrow> (\<exists>packed. filterAt filterFn data width height q = Inr packed)"
      using before by blast
    have "filterFailure filterFn width height cancelRef data (catchFilterError x y err)"
      unfolding filterFailure_def
      using pf Inl prev by (intro disjI2 exI [of _ p] exI [of _ err]) simp
    then show ?thesis unfolding p_def [symmetric] res by simp
  next
    case (Inr packed)
    define a where "a = shr32 packed 16 AND 255"
    define b where "b = shr32 packed 8 AND 255"
    define c where "c = signed_take_bit 31 packed AND 255"
    have ab: "0 \<le> a" "a \<le> 255" using and_255_bounds [of "shr32 packed 16"] by (simp_all add: a_def)
    have bb: "0 \<le> b" "b \<le> 255" using and_255_bounds [of "shr32 packed 8"] by (simp_all add: b_def)
    have cb: "0 \<le> c" "c \<le> 255"
      using and_255_bounds [of "signed_take_bit 31 packed"] by (simp_all add: c_def)
    define d3 where "d3 = data'[nat i := of_int a, nat (i + 1) := of_int b, nat (i + 2) := of_int c]"
    have w: "writeByte (writeByte (writeByte data' i a) (i + 1) b) (i + 2) c = d3"
      using i0 in0 in1 in2 ab bb cb by (simp add: writeByte_byte len d3_def)
    have new: "filteredUpto filterFn width height data (p + 1) d3"
      unfolding filteredUpto_def
    proof (intro conjI allI impI)
      show "length d3 = length data" by (simp add: d3_def len)
    next
      fix q assume q: "0 \<le> q \<and> q < p + 1"
      show "\<exists>packed. filterAt filterFn data width height q = Inr packed \<and>
           uint (d3 ! nat (q * 4)) = shr32 packed 16 AND 255 \<and>
           uint (d3 ! nat (q * 4 + 1)) = shr32 packed 8 AND 255 \<and>
           uint (d3 ! nat (q * 4 + 2)) = signed_take_bit 31 packed AND 255 \<and>
           d3 ! nat (q * 4 + 3) = data ! nat (q * 4 + 3)"
      proof (cases "q = p")
        case True
        have n0: "d3 ! nat i = of_int a"
          using i0 in0 by (simp add: d3_def len nat_add_distrib)
        have n1: "d3 ! nat (i + 1) = of_int b"
          using i0 in1 by (simp add: d3_def len nat_add_distrib)
        have n2: "d3 ! nat (i + 2) = of_int c"
          using i0 in2 by (simp add: d3_def len nat_add_distrib)
        have n3: "d3 ! nat (i + 3) = data ! nat (i + 3)"
          using i0 rest [of "i + 3"] by (simp add: d3_def nat_add_distrib)
        show ?thesis
          using Inr n0 n1 n2 n3 ab bb cb
          by (simp add: True i_def [symmetric] uint_of_int_byte a_def [symmetric]
              b_def [symmetric] c_def [symmetric])
      next
        case False
        then have qp: "0 \<le> q" "q < p" using q by simp_all
        have ne: "\<And>k. 0 \<le> k \<Longrightarrow> k \<le> 3 \<Longrightarrow> d3 ! nat (q * 4 + k) = data' ! nat (q * 4 + k)"
          using qp i0 by (simp add: d3_def i_def nat_eq_iff)
        show ?thesis
          using before [OF qp] ne [of 0] ne [of 1] ne [of 2] ne [of 3] by simp
      qed
    next
      fix j assume j: "(p + 1) * 4 \<le> j"
      then have "d3 ! nat j = data' ! nat j" using i0 by (simp add: d3_def i_def nat_eq_iff)
      moreover have "data' ! nat j = data ! nat j" using j by (intro rest) (simp add: i_def)
      ultimately show "d3 ! nat j = data ! nat j" by simp
    qed
    have "cancelRef (Suc yields) \<Longrightarrow> filterFailure filterFn width height cancelRef data Cancelled"
      by (auto simp: filterFailure_def)
    then show ?thesis
      unfolding p_def [symmetric] fp Inr sum.case Let_def a_def [symmetric] b_def [symmetric]
        c_def [symmetric] w
      using new by simp
  qed
qed


lemma filterRow_step:
  assumes wf: "length data = nat (width * height * 4)" "0 \<le> width"
    and y: "0 \<le> y" "y < height"
    and inv: "filteredUpto filterFn width height data (y * width) data'"
  shows "case filterRow filterFn width height cancelRef y (data', y * width, yields) of
           Inl e \<Rightarrow> filterFailure filterFn width height cancelRef data e
         | Inr st \<Rightarrow> filteredUpto filterFn width height data ((y + 1) * width) (fst st) \<and>
                    fst (snd st) = (y + 1) * width"
proof (cases "cancelRef yields")
  case True
  then have "filterFailure filterFn width height cancelRef data Cancelled"
    by (auto simp: filterFailure_def)
  then show ?thesis using True by (simp add: filterRow_def)
next
  case False
  let ?I = "\<lambda>k (st :: byte list \<times> int \<times> nat).
      filteredUpto filterFn width height data (y * width + k) (fst st) \<and>
      fst (snd st) = y * width + k"
  have L: "case forM (indices width) (data', y * width, yields)
               (filterPixel filterFn width height cancelRef y) of
          Inl e \<Rightarrow> filterFailure filterFn width height cancelRef data e
        | Inr st \<Rightarrow> ?I (max 0 width) st"
  proof (rule forM_indices_rule [where I = ?I])
    show "?I 0 (data', y * width, yields)" using inv by simp
  next
    fix k st assume k: "0 \<le> k" "k < width" and I: "?I k st"
    obtain d pr yl where st: "st = (d, pr, yl)" by (cases st)
    have Id: "filteredUpto filterFn width height data (y * width + k) d"
      and pr: "pr = y * width + k" using I st by simp_all
    have e: "y * width + (k + 1) = y * width + k + 1" by simp
    show "case filterPixel filterFn width height cancelRef y k st of
            Inl e \<Rightarrow> filterFailure filterFn width height cancelRef data e
          | Inr st' \<Rightarrow> ?I (k + 1) st'"
      unfolding st pr e using filterPixel_step [OF wf(1) k y Id, of cancelRef yl] .
  qed
  have e2: "y * width + max 0 width = (y + 1) * width" using wf(2) by (simp add: algebra_simps)
  show ?thesis using False L [unfolded e2] by (simp only: filterRow_def prod.case if_False)
qed

lemma applyStep2Filter_pass:
  assumes wf: "length (img_data img) = nat (width * height * 4)" "0 \<le> width" "0 \<le> height"
  shows "case applyStep2Filter img width height filterFn cancelRef of
           Inl e \<Rightarrow> filterFailure filterFn width height cancelRef (img_data img) e
         | Inr out \<Rightarrow> filteredUpto filterFn width height (img_data img) (width * height) (img_data out)"
proof -
  let ?data = "img_data img"
  let ?I = "\<lambda>k (st :: byte list \<times> int \<times> nat).
      filteredUpto filterFn width height ?data (k * width) (fst st) \<and> fst (snd st) = k * width"
  have "case forM (indices height) (?data, 0, 0) (filterRow filterFn width height cancelRef) of
          Inl e \<Rightarrow> filterFailure filterFn width height cancelRef ?data e
        | Inr st \<Rightarrow> ?I (max 0 height) st"
  proof (rule forM_indices_rule [where I = ?I])
    show "?I 0 (?data, 0, 0)" by (simp add: filteredUpto_init)
  next
    fix k st assume k: "0 \<le> k" "k < height" and I: "?I k st"
    obtain d pr yl where st: "st = (d, pr, yl)" by (cases st)
    have Id: "filteredUpto filterFn width height ?data (k * width) d"
      and pr: "pr = k * width" using I st by simp_all
    show "case filterRow filterFn width height cancelRef k st of
            Inl e \<Rightarrow> filterFailure filterFn width height cancelRef ?data e
          | Inr st' \<Rightarrow> ?I (k + 1) st'"
      unfolding st pr using filterRow_step [OF wf(1,2) k Id, of cancelRef yl] .
  qed
  moreover have "max 0 height * width = width * height" using wf(3) by simp
  ultimately show ?thesis
    by (auto simp: applyStep2Filter_def mult.commute split: sum.splits)
qed

subsection \<open>The pass with a compiled filter\<close>

lemma filterAt_compiled_throws:
  "scriptAt userCode data width height p = Throws t \<Longrightarrow>
   filterAt (compilePixelFilter userCode) data width height p = Inl t"
  by (simp add: filterAt_def scriptAt_def compilePixelFilter_def)


text \<open>
  The pass ends with an error whenever the script throws on some pixel, and when the
  flag is never set that error is what the catch block makes of the value thrown on the
  first such pixel.
\<close>

lemma filter_throw_no_output:
  assumes wf: "length (img_data img) = nat (width * height * 4)"
    and xy: "0 \<le> x" "x < width" "0 \<le> y" "y < height"
    and throws: "scriptAt userCode (img_data img) width height (y * width + x) = Throws t"
  shows "\<exists>e. applyStep2Filter img width height (compilePixelFilter userCode) cancelRef = Inl e"
proof (cases "applyStep2Filter img width height (compilePixelFilter userCode) cancelRef")
  case (Inl e)
  then show ?thesis by simp
next
  case (Inr out)
  have w: "0 \<le> width" and h: "0 \<le> height" using xy by simp_all
  note pf = pixel_index_facts [OF xy]
  have "filteredUpto (compilePixelFilter userCode) width height (img_data img) (width * height)
          (img_data out)"
    using applyStep2Filter_pass [OF wf w h, of "compilePixelFilter userCode" cancelRef] Inr by simp
  then have "\<exists>packed. filterAt (compilePixelFilter userCode) (img_data img) width height
      (y * width + x) = Inr packed"
    using pf(1,2) unfolding filteredUpto_def by blast
  then show ?thesis by (simp add: filterAt_compiled_throws [OF throws])
qed

lemma filter_throw_first:
  assumes wf: "length (img_data img) = nat (width * height * 4)"
    and xy: "0 \<le> x" "x < width" "0 \<le> y" "y < height"
    and throws: "scriptAt userCode (img_data img) width height (y * width + x) = Throws t"
    and first: "\<forall>q. 0 \<le> q \<and> q < y * width + x \<longrightarrow>
        (\<exists>packed. filterAt (compilePixelFilter userCode) (img_data img) width height q = Inr packed)"
    and nc: "\<forall>k. \<not> cancelRef k"
  shows "applyStep2Filter img width height (compilePixelFilter userCode) cancelRef
           = Inl (catchFilterError x y t)"
proof -
  let ?f = "compilePixelFilter userCode"
  let ?data = "img_data img"
  have w: "0 \<le> width" and h: "0 \<le> height" using xy by simp_all
  note pf = pixel_index_facts [OF xy]
  have thr: "filterAt ?f ?data width height (y * width + x) = Inl t"
    by (simp add: filterAt_compiled_throws [OF throws])
  from filter_throw_no_output [OF wf xy throws, of cancelRef]
  obtain e where e: "applyStep2Filter img width height ?f cancelRef = Inl e" by blast
  then have "filterFailure ?f width height cancelRef ?data e"
    using applyStep2Filter_pass [OF wf w h, of ?f cancelRef] by simp
  then obtain p err where p: "0 \<le> p" "p < width * height"
    and ee: "e = catchFilterError (p mod width) (p div width) err"
    and pt: "filterAt ?f ?data width height p = Inl err"
    and pfirst: "\<forall>q. 0 \<le> q \<and> q < p \<longrightarrow> (\<exists>packed. filterAt ?f ?data width height q = Inr packed)"
    using nc unfolding filterFailure_def by blast
  have "\<not> p < y * width + x" using first p(1) pt by auto
  moreover have "\<not> y * width + x < p" using pfirst pf(1) thr by auto
  ultimately have eq: "p = y * width + x" by simp
  have "err = t" using pt thr unfolding eq by simp
  then show ?thesis using e ee unfolding eq pf(3,4) by simp
qed


subsection \<open>Examples\<close>




subsection \<open>A thrown value without a message\<close>

text \<open>
  Claim C6. If the filter throws while processing a pixel, the pass is to raise an error
  identifying that pixel's \<open>(x, y)\<close> and the underlying message. The script
  \<open>throw Object.create(null);\<close> on a one-pixel image: the catch block's \<open>String(err)\<close>
  throws, and the pass ends with that exception, which carries neither the coordinates
  nor a message of the script; the same script throwing a string is reported as the claim
  says.
\<close>

theorem filter_runtime_failure_unprintable:
  "applyStep2Filter \<lparr>img_data = [10, 20, 30, 255], img_width = 1, img_height = 1\<rparr> 1 1
     (compilePixelFilter (\<lambda>n R G B X Y W H. Throws Unprintable)) (\<lambda>k. False)
   = Inl UncaughtException \<and>
   applyStep2Filter \<lparr>img_data = [10, 20, 30, 255], img_width = 1, img_height = 1\<rparr> 1 1
     (compilePixelFilter (\<lambda>n R G B X Y W H. Throws (Printable ''boom''))) (\<lambda>k. False)
   = Inl (FilterRuntimeError 0 0 ''boom'')"
  by code_simp

lemma filter_example_second_pixel:
  "applyStep2Filter \<lparr>img_data = [1, 2, 3, 255, 4, 5, 6, 255], img_width = 2, img_height = 1\<rparr> 2 1
     (compilePixelFilter (\<lambda>n R G B X Y W H.
        if X = 1 then Throws (Printable ''boom'') else Finishes R G B R G B)) (\<lambda>k. False)
   = Inl (FilterRuntimeError 1 0 ''boom'')"
  by code_simp

section \<open>The round trip of the identity pattern\<close>

subsection \<open>Sample points stay inside their tile\<close>

lemma sampleMargin_region:
  assumes "1 \<le> M"
  shows "0 \<le> sampleMargin M \<and> 1 \<le> M - sampleMargin M * 2"
proof -
  have f4: "\<lfloor>(of_int M :: rat) / 4\<rfloor> = M div 4"
    using floor_divide_of_int_eq [of M 4, where ?'a = rat] by simp
  define m0 where "m0 = max 1 \<lfloor>(of_int M :: rat) * (2 / 10)\<rfloor>"
  have m0: "1 \<le> m0" by (simp add: m0_def)
  have d: "sampleMargin M = (if m0 * 2 \<ge> M then max 0 (M div 4) else m0)"
    unfolding sampleMargin_def m0_def [symmetric] Let_def f4 ..
  show ?thesis
  proof (cases "m0 * 2 \<ge> M")
    case True
    have "M div 4 * 2 < M" using assms by presburger
    then show ?thesis using True assms d by (simp add: max_def)
  next
    case False
    then show ?thesis using m0 d by simp
  qed
qed

lemma sampleCoord_in_tile:
  fixes region s k c0 lo limit :: int
  assumes reg: "1 \<le> region" and s: "s = max 1 (min 8 region)"
    and k: "0 \<le> k" "k < s"
    and c0: "lo \<le> c0" "c0 + region \<le> hi" and lim: "0 \<le> lo" "hi \<le> limit"
  shows "lo \<le> sampleCoord limit c0 k (of_int region / of_int s) \<and>
         sampleCoord limit c0 k (of_int region / of_int s) < hi"
proof -
  define e :: rat where "e = (of_int k + 1 / 2) * (of_int region / of_int s)"
  have spos: "(0::rat) < of_int s" using s by simp
  have rpos: "(0::rat) < of_int region" using reg by simp
  have step: "(0::rat) < of_int region / of_int s" using spos rpos by simp
  have kk: "(0::rat) \<le> of_int k + 1 / 2" using k by simp
  have e0: "0 \<le> e" unfolding e_def using kk step by (intro mult_nonneg_nonneg) simp_all
  have "k + 1 \<le> s" using k by simp
  then have "(of_int (k + 1) :: rat) \<le> of_int s" by (simp only: of_int_le_iff)
  then have ks: "(of_int k :: rat) + 1 / 2 < of_int s" by simp
  have "e < of_int s * (of_int region / of_int s)"
    unfolding e_def using ks step by (simp only: mult_strict_right_mono)
  also have "\<dots> = of_int region" using spos by simp
  finally have e1: "e < of_int region" .
  have f0: "0 \<le> \<lfloor>e\<rfloor>" using e0 by simp
  have f1: "\<lfloor>e\<rfloor> < region" using e1 by (simp add: floor_less_iff)
  have fl: "\<lfloor>of_int c0 + e\<rfloor> = c0 + \<lfloor>e\<rfloor>" by simp
  have val: "sampleCoord limit c0 k (of_int region / of_int s)
      = min (limit - 1) (max 0 (c0 + \<lfloor>e\<rfloor>))"
    unfolding sampleCoord_def e_def [symmetric] fl ..
  have a: "0 \<le> c0 + \<lfloor>e\<rfloor>" using f0 c0 lim by linarith
  have b: "c0 + \<lfloor>e\<rfloor> \<le> limit - 1" using f1 c0 lim by linarith
  have "min (limit - 1) (max 0 (c0 + \<lfloor>e\<rfloor>)) = c0 + \<lfloor>e\<rfloor>"
    using a b by (simp only: max_absorb2 min_absorb2)
  moreover have "lo \<le> c0 + \<lfloor>e\<rfloor>" using f0 c0 by linarith
  moreover have "c0 + \<lfloor>e\<rfloor> < hi" using f1 c0 by linarith
  ultimately show ?thesis unfolding val by (simp only:)
qed

lemma samplePoints_in_tile:
  assumes M: "1 \<le> M"
    and tx: "0 \<le> tileX * M" "tileX * M + M \<le> imgW"
    and ty: "0 \<le> tileY * M" "tileY * M + M \<le> imgH"
    and pt: "(px, py) \<in> set (samplePoints imgW imgH tileX tileY M)"
  shows "tileX * M \<le> px \<and> px < tileX * M + M \<and> tileY * M \<le> py \<and> py < tileY * M + M"
proof -
  define margin where "margin = sampleMargin M"
  define region where "region = M - margin * 2"
  define s where "s = max 1 (min 8 region)"
  have mr: "0 \<le> margin" "1 \<le> region"
    using sampleMargin_region [OF M] by (simp_all add: margin_def region_def)
  obtain xx yy where xx: "xx \<in> set (indices s)" and yy: "yy \<in> set (indices s)"
    and px: "px = sampleCoord imgW (tileX * M + margin) xx (of_int region / of_int s)"
    and py: "py = sampleCoord imgH (tileY * M + margin) yy (of_int region / of_int s)"
    using pt unfolding samplePoints_def Let_def margin_def [symmetric] region_def [symmetric]
      s_def [symmetric] by auto
  have xr: "0 \<le> xx" "xx < s" and yr: "0 \<le> yy" "yy < s"
    using xx yy by (simp_all add: set_indices)
  have cx: "tileX * M \<le> tileX * M + margin" "tileX * M + margin + region \<le> tileX * M + M"
    using mr by (simp_all add: region_def)
  have cy: "tileY * M \<le> tileY * M + margin" "tileY * M + margin + region \<le> tileY * M + M"
    using mr by (simp_all add: region_def)
  from sampleCoord_in_tile [OF mr(2) s_def xr cx tx] sampleCoord_in_tile [OF mr(2) s_def yr cy ty]
  show ?thesis unfolding px py by simp
qed

lemma fold_addSample_uniform:
  assumes "\<forall>(px, py) \<in> set pts.
             readByte data ((py * imgW + px) * 4) = Fin cr \<and>
             readByte data ((py * imgW + px) * 4 + 1) = Fin cg \<and>
             readByte data ((py * imgW + px) * 4 + 2) = Fin cb"
  shows "fold (addSample data imgW) pts (Fin a, Fin b, Fin c, n)
           = (Fin (a + of_nat (length pts) * cr), Fin (b + of_nat (length pts) * cg),
              Fin (c + of_nat (length pts) * cb), n + length pts)"
  using assms
proof (induction pts arbitrary: a b c n)
  case Nil
  then show ?case by simp
next
  case (Cons pt pts)
  obtain px py where pt: "pt = (px, py)" by (cases pt)
  have stp: "addSample data imgW pt (Fin a, Fin b, Fin c, n)
      = (Fin (a + cr), Fin (b + cg), Fin (c + cb), Suc n)"
    using Cons.prems by (simp add: addSample_def pt Let_def)
  have rest: "\<forall>(px, py) \<in> set pts.
             readByte data ((py * imgW + px) * 4) = Fin cr \<and>
             readByte data ((py * imgW + px) * 4 + 1) = Fin cg \<and>
             readByte data ((py * imgW + px) * 4 + 2) = Fin cb"
    using Cons.prems by simp
  show ?case
    using Cons.IH [OF rest, of "a + cr" "b + cg" "c + cb" "Suc n"] stp
    by (simp add: algebra_simps)
qed

lemma sampleTileColor_uniform:
  assumes "\<forall>(px, py) \<in> set (samplePoints imgW imgH tileX tileY M).
             readByte data ((py * imgW + px) * 4) = Fin cr \<and>
             readByte data ((py * imgW + px) * 4 + 1) = Fin cg \<and>
             readByte data ((py * imgW + px) * 4 + 2) = Fin cb"
  shows "sampleTileColor data imgW imgH tileX tileY M = (Fin cr, Fin cg, Fin cb)"
proof -
  let ?pts = "samplePoints imgW imgH tileX tileY M"
  have n: "length ?pts \<noteq> 0" using samplePoints_nonempty [of imgW imgH tileX tileY M] by linarith
  then have n': "(of_nat (length ?pts) :: rat) \<noteq> 0" by simp
  have f: "sampleSums data imgW imgH tileX tileY M
      = (Fin (of_nat (length ?pts) * cr), Fin (of_nat (length ?pts) * cg),
         Fin (of_nat (length ?pts) * cb), length ?pts)"
    unfolding sampleSums_def using fold_addSample_uniform [OF assms, of 0 0 0 0] by simp
  show ?thesis unfolding sampleTileColor_def f using n n' by simp
qed


subsection \<open>Tiles do not overlap\<close>

lemma div_in_block:
  fixes M a p :: int
  assumes "0 < M" "a * M \<le> p" "p < a * M + M"
  shows "p div M = a"
proof -
  have "p = a * M + (p - a * M)" by simp
  moreover have "0 \<le> p - a * M" "p - a * M < M" using assms by simp_all
  ultimately have "p div M = a + (p - a * M) div M"
    using assms(1) by (metis div_mult_self3 less_irrefl add.commute)
  then show ?thesis using \<open>0 \<le> p - a * M\<close> \<open>p - a * M < M\<close> by (simp add: div_pos_pos_trivial)
qed

lemma cell_split:
  fixes N r g :: int
  assumes "0 \<le> r" "r < N"
  shows "(r + g * N) mod N = r" "(r + g * N) div N = g"
  using assms by (simp_all add: mod_pos_pos_trivial)

lemma cell_bound:
  fixes N r g :: int
  assumes "0 \<le> r" "r < N" "0 \<le> g" "g < N"
  shows "0 \<le> r + g * N" "r + g * N < N * N"
proof -
  have N: "0 < N" using assms by simp
  show "0 \<le> r + g * N" using assms N by simp
  have "g * N \<le> (N - 1) * N" using assms N by (intro mult_right_mono) simp_all
  then show "r + g * N < N * N" using assms by (simp add: algebra_simps)
qed

lemma tileCoords_nonneg:
  assumes "0 < N" "0 \<le> t"
  shows "tileCoords t N layout =
     (if layout = wide then (t mod N + (t div N) mod N * N, t div (N * N))
      else (t mod N, (t div N) mod N + t div (N * N) * N))"
  using assms by (simp add: tileCoords_def tileIndexToRGB_nonneg)

lemma tileCoords_range:
  assumes N: "0 < N" and t: "0 \<le> t" "t < N * N * N"
    and dims: "computeDims N M layout = (tilesW, tilesH, width, height)"
    and tc: "tileCoords t N layout = (xTile, yTile)"
  shows "0 \<le> xTile \<and> xTile < tilesW \<and> 0 \<le> yTile \<and> yTile < tilesH"
proof -
  note rg = tileIndexToRGB_range [OF N t]
  have tw: "tilesW = (if layout = wide then N * N else N)"
    and th: "tilesH = (if layout = wide then N else N * N)"
    using dims by (auto simp: computeDims_def Let_def)
  show ?thesis
  proof (cases "layout = wide")
    case True
    then have "xTile = t mod N + (t div N) mod N * N" "yTile = t div (N * N)"
      using tc tileCoords_nonneg [OF N t(1), of layout] by simp_all
    then show ?thesis using True tw th rg cell_bound [of "t mod N" N "(t div N) mod N"] by simp
  next
    case False
    then have "xTile = t mod N" "yTile = (t div N) mod N + t div (N * N) * N"
      using tc tileCoords_nonneg [OF N t(1), of layout] by simp_all
    then show ?thesis using False tw th rg cell_bound [of "(t div N) mod N" N "t div (N * N)"] by simp
  qed
qed

lemma cell_inj:
  fixes N r g r' g' :: int
  assumes "0 \<le> r" "r < N" "0 \<le> r'" "r' < N" and eq: "r + g * N = r' + g' * N"
  shows "r = r' \<and> g = g'"
proof -
  have "(r + g * N) mod N = (r' + g' * N) mod N" using eq by (rule arg_cong)
  then have a: "r = r'"
    by (simp only: cell_split(1) [OF assms(1,2)] cell_split(1) [OF assms(3,4)])
  have "(r + g * N) div N = (r' + g' * N) div N" using eq by (rule arg_cong)
  then have "g = g'"
    by (simp only: cell_split(2) [OF assms(1,2)] cell_split(2) [OF assms(3,4)])
  with a show ?thesis by (rule conjI)
qed

lemma tileCoords_inj:
  assumes N: "0 < N" and s: "0 \<le> s" "s < N * N * N" and t: "0 \<le> t" "t < N * N * N"
    and eq: "tileCoords s N layout = tileCoords t N layout"
  shows "s = t"
proof -
  note rs = tileIndexToRGB_range [OF N s]
  note rt = tileIndexToRGB_range [OF N t]
  define r1 g1 b1 where "r1 = s mod N" and "g1 = (s div N) mod N" and "b1 = s div (N * N)"
  define r2 g2 b2 where "r2 = t mod N" and "g2 = (t div N) mod N" and "b2 = t div (N * N)"
  have c1: "tileCoords s N layout = (if layout = wide then (r1 + g1 * N, b1) else (r1, g1 + b1 * N))"
    unfolding r1_def g1_def b1_def by (rule tileCoords_nonneg [OF N s(1)])
  have c2: "tileCoords t N layout = (if layout = wide then (r2 + g2 * N, b2) else (r2, g2 + b2 * N))"
    unfolding r2_def g2_def b2_def by (rule tileCoords_nonneg [OF N t(1)])
  have rg1: "0 \<le> r1" "r1 < N" "0 \<le> g1" "g1 < N" using rs by (simp_all add: r1_def g1_def)
  have rg2: "0 \<le> r2" "r2 < N" "0 \<le> g2" "g2 < N" using rt by (simp_all add: r2_def g2_def)
  have same: "r1 = r2 \<and> g1 = g2 \<and> b1 = b2"
  proof (cases "layout = wide")
    case True
    then have "r1 + g1 * N = r2 + g2 * N" and b: "b1 = b2" using eq c1 c2 by simp_all
    from cell_inj [OF rg1(1,2) rg2(1,2) this(1)] b show ?thesis by simp
  next
    case False
    then have r: "r1 = r2" and "g1 + b1 * N = g2 + b2 * N" using eq c1 c2 by simp_all
    from cell_inj [OF rg1(3,4) rg2(3,4) this(2)] r show ?thesis by simp
  qed
  have "s = r1 + g1 * N + b1 * (N * N)"
    unfolding r1_def g1_def b1_def by (rule sym) (rule tileIndexToRGB_recompose [OF N])
  also have "\<dots> = r2 + g2 * N + b2 * (N * N)" using same by (simp only:)
  also have "\<dots> = t" unfolding r2_def g2_def b2_def by (rule tileIndexToRGB_recompose [OF N])
  finally show ?thesis .
qed

lemma v_byte:
  assumes "2 \<le> N" "0 \<le> i" "i < N"
  shows "0 \<le> v i N \<and> v i N \<le> 255"
proof -
  have "v 0 N \<le> v i N" using assms by (intro v_mono) simp
  moreover have "v i N \<le> v (N - 1) N" using assms by (intro v_mono) simp
  ultimately show ?thesis using v_zero [of N] v_top [OF assms(1)] by simp
qed

lemma uint_cssByte: "0 \<le> k \<Longrightarrow> k \<le> 255 \<Longrightarrow> uint (cssByte k) = k"
  by (simp add: cssByte_def uint_of_int_byte)


subsection \<open>The generated image\<close>

lemma nth_concat_quads:
  assumes len: "\<And>i. length (f i) = 4" and p: "p < n" and k: "k < 4"
  shows "concat (map f [0..<n]) ! (p * 4 + k) = f p ! k"
  using p
proof (induction n)
  case 0
  then show ?case by simp
next
  case (Suc n)
  have l: "length (concat (map f [0..<n])) = n * 4"
    using length_concat_const [of "[0..<n]" f 4] len by simp
  show ?case
  proof (cases "p < n")
    case True
    then have "p * 4 + k < n * 4" using k by simp
    then show ?thesis using Suc.IH [OF True] l by (simp add: nth_append)
  next
    case False
    then have "p = n" using Suc.prems by simp
    then show ?thesis using l k by (simp add: nth_append)
  qed
qed

lemma length_loadPng:
  "length (img_data (loadPngToImageData cv)) = nat (cwidth cv * cheight cv * 4)"
proof -
  have "length (img_data (loadPngToImageData cv)) = nat (cwidth cv * cheight cv) * 4"
    unfolding loadPngToImageData_def
    by (simp add: length_concat_const [where n = 4] split: prod.splits)
  then show ?thesis by (simp add: nat_mult_distrib)
qed

lemma loadPng_read:
  assumes px: "0 \<le> px" "px < cwidth cv" and py: "0 \<le> py" "py < cheight cv"
    and col: "cpixel cv px py = (r, g, b, a)"
  shows "readByte (img_data (loadPngToImageData cv)) ((py * cwidth cv + px) * 4) = Fin (of_int (uint r))"
    and "readByte (img_data (loadPngToImageData cv)) ((py * cwidth cv + px) * 4 + 1) = Fin (of_int (uint g))"
    and "readByte (img_data (loadPngToImageData cv)) ((py * cwidth cv + px) * 4 + 2) = Fin (of_int (uint b))"
proof -
  let ?W = "cwidth cv" and ?H = "cheight cv"
  let ?f = "\<lambda>p. case cpixel cv (int p mod ?W) (int p div ?W) of (r, g, b, a) \<Rightarrow> [r, g, b, a]"
  let ?d = "img_data (loadPngToImageData cv)"
  define p where "p = py * ?W + px"
  note pf = pixel_index_facts [OF px py, folded p_def]
  have d: "?d = concat (map ?f [0..<nat (?W * ?H)])" by (simp add: loadPngToImageData_def)
  have len4: "\<And>i. length (?f i) = 4" by (simp split: prod.splits)
  have pn: "nat p < nat (?W * ?H)" using pf(1,2) by simp
  have fp: "?f (nat p) = [r, g, b, a]" using pf col by simp
  have nth: "\<And>k. k < 4 \<Longrightarrow> ?d ! (nat p * 4 + k) = [r, g, b, a] ! k"
    unfolding d using nth_concat_quads [of ?f "nat p" "nat (?W * ?H)", OF len4 pn] fp by simp
  have L: "length ?d = nat (?W * ?H * 4)" by (rule length_loadPng)
  have iN: "p * 4 + 3 < ?W * ?H * 4" using pf(2) by simp
  have ix: "nat (p * 4) = nat p * 4" "nat (p * 4 + 1) = nat p * 4 + 1" "nat (p * 4 + 2) = nat p * 4 + 2"
    using pf(1) by (simp_all add: nat_add_distrib nat_mult_distrib)
  show "readByte ?d ((py * ?W + px) * 4) = Fin (of_int (uint r))"
    unfolding p_def [symmetric] readByte_def using pf(1) iN L nth [of 0] ix by simp
  show "readByte ?d ((py * ?W + px) * 4 + 1) = Fin (of_int (uint g))"
    unfolding p_def [symmetric] readByte_def using pf(1) iN L nth [of 1] ix by simp
  show "readByte ?d ((py * ?W + px) * 4 + 2) = Fin (of_int (uint b))"
    unfolding p_def [symmetric] readByte_def using pf(1) iN L nth [of 2] ix by simp
qed


lemma patternStep_run:
  assumes "\<not> cancelRef yl" "tileIndexToRGB t N = (r, g, b)" "tileCoords t N layout = (xT, yT)"
  shows "\<exists>yl'. patternStep N M layout cancelRef t (cv, yl)
           = Inr (fillRect cv (xT * M) (yT * M) M M (v r N, v g N, v b N), yl')"
  using assms by (simp add: patternStep_def Let_def)

lemma fillRect_size: "cwidth (fillRect c x y w h style) = cwidth c \<and> cheight (fillRect c x y w h style) = cheight c"
  by (simp add: fillRect_def split: prod.splits)

lemma fillRect_inside:
  assumes "x \<le> px" "px < x + w" "y \<le> py" "py < y + h"
    "0 \<le> px" "px < cwidth c" "0 \<le> py" "py < cheight c"
  shows "cpixel (fillRect c x y w h (r, g, b)) px py = (cssByte r, cssByte g, cssByte b, 255)"
  using assms by (simp add: fillRect_def)

lemma fillRect_outside:
  assumes "\<not> (x \<le> px \<and> px < x + w \<and> y \<le> py \<and> py < y + h)"
  shows "cpixel (fillRect c x y w h style) px py = cpixel c px py"
  using assms by (auto simp: fillRect_def split: prod.splits)

lemma pattern_loop:
  assumes N: "2 \<le> N" and M: "1 \<le> M" and nc: "\<forall>k. \<not> cancelRef k"
    and dims: "computeDims N M layout = (tilesW, tilesH, width, height)"
  shows "\<exists>cv yl. forM (indices (N * N * N)) (createCanvas width height, 0)
                   (patternStep N M layout cancelRef) = Inr (cv, yl) \<and>
           cwidth cv = width \<and> cheight cv = height \<and>
           (\<forall>t px py xT yT r g b. 0 \<le> t \<and> t < N * N * N \<and>
               tileCoords t N layout = (xT, yT) \<and> tileIndexToRGB t N = (r, g, b) \<and>
               xT * M \<le> px \<and> px < xT * M + M \<and> yT * M \<le> py \<and> py < yT * M + M \<longrightarrow>
               cpixel cv px py = (cssByte (v r N), cssByte (v g N), cssByte (v b N), 255))"
proof -
  have N0: "0 < N" using N by simp
  have M0: "0 < M" using M by simp
  have wh: "width = tilesW * M" "height = tilesH * M"
    using dims by (auto simp: computeDims_def Let_def)
  let ?I = "\<lambda>k (st :: canvas \<times> nat).
      cwidth (fst st) = width \<and> cheight (fst st) = height \<and>
      (\<forall>t px py xT yT r g b. 0 \<le> t \<and> t < k \<and>
          tileCoords t N layout = (xT, yT) \<and> tileIndexToRGB t N = (r, g, b) \<and>
          xT * M \<le> px \<and> px < xT * M + M \<and> yT * M \<le> py \<and> py < yT * M + M \<longrightarrow>
          cpixel (fst st) px py = (cssByte (v r N), cssByte (v g N), cssByte (v b N), 255))"
  have L: "case forM (indices (N * N * N)) (createCanvas width height, 0)
                 (patternStep N M layout cancelRef) of
             Inl e \<Rightarrow> False | Inr st \<Rightarrow> ?I (max 0 (N * N * N)) st"
  proof (rule forM_indices_rule [where I = ?I and E = "\<lambda>e. False"])
    show "?I 0 (createCanvas width height, 0)" by (simp add: createCanvas_def)
  next
    fix k and st :: "canvas \<times> nat"
    assume k: "0 \<le> k" "k < N * N * N" and I: "?I k st"
    obtain cv yl where st: "st = (cv, yl)" by (cases st)
    obtain r g b where rgb: "tileIndexToRGB k N = (r, g, b)" by (cases "tileIndexToRGB k N")
    obtain xT yT where tc: "tileCoords k N layout = (xT, yT)" by (cases "tileCoords k N layout")
    have ncy: "\<not> cancelRef yl" using nc by simp
    from patternStep_run [where cancelRef = cancelRef and yl = yl and M = M and cv = cv,
        OF ncy rgb tc]
    obtain yl' where run: "patternStep N M layout cancelRef k (cv, yl)
           = Inr (fillRect cv (xT * M) (yT * M) M M (v r N, v g N, v b N), yl')"
      by blast
    let ?cv' = "fillRect cv (xT * M) (yT * M) M M (v r N, v g N, v b N)"
    have size: "cwidth cv = width" "cheight cv = height" using I st by simp_all
    note rng = tileCoords_range [OF N0 k dims tc]
    have inW: "0 \<le> xT * M" "xT * M + M \<le> width"
    proof -
      show "0 \<le> xT * M" using rng M0 by simp
      have "(xT + 1) * M \<le> tilesW * M" using rng M0 by (intro mult_right_mono) simp_all
      then show "xT * M + M \<le> width" by (simp add: wh algebra_simps)
    qed
    have inH: "0 \<le> yT * M" "yT * M + M \<le> height"
    proof -
      show "0 \<le> yT * M" using rng M0 by simp
      have "(yT + 1) * M \<le> tilesH * M" using rng M0 by (intro mult_right_mono) simp_all
      then show "yT * M + M \<le> height" by (simp add: wh algebra_simps)
    qed
    have "?I (k + 1) (?cv', yl')"
    proof (intro conjI allI impI)
      show "cwidth (fst (?cv', yl')) = width" using size fillRect_size by simp
      show "cheight (fst (?cv', yl')) = height" using size fillRect_size by simp
    next
      fix t px py xT' yT' r' g' b'
      assume a: "0 \<le> t \<and> t < k + 1 \<and>
          tileCoords t N layout = (xT', yT') \<and> tileIndexToRGB t N = (r', g', b') \<and>
          xT' * M \<le> px \<and> px < xT' * M + M \<and> yT' * M \<le> py \<and> py < yT' * M + M"
      show "cpixel (fst (?cv', yl')) px py
          = (cssByte (v r' N), cssByte (v g' N), cssByte (v b' N), 255)"
      proof (cases "t = k")
        case True
        then have same: "xT' = xT" "yT' = yT" "r' = r" "g' = g" "b' = b" using a tc rgb by simp_all
        have "cpixel ?cv' px py = (cssByte (v r N), cssByte (v g N), cssByte (v b N), 255)"
          using a inW inH size unfolding same by (intro fillRect_inside) simp_all
        then show ?thesis by (simp add: same)
      next
        case False
        then have tk: "0 \<le> t" "t < k" using a by simp_all
        then have tN: "t < N * N * N" using k by simp
        have "\<not> (xT * M \<le> px \<and> px < xT * M + M \<and> yT * M \<le> py \<and> py < yT * M + M)"
        proof
          assume b: "xT * M \<le> px \<and> px < xT * M + M \<and> yT * M \<le> py \<and> py < yT * M + M"
          have "px div M = xT" "py div M = yT" using b M0 by (simp_all add: div_in_block)
          moreover have "px div M = xT'" "py div M = yT'" using a M0 by (simp_all add: div_in_block)
          ultimately have "tileCoords t N layout = tileCoords k N layout" using a tc by simp
          from tileCoords_inj [OF N0 tk(1) tN k this] False show False by simp
        qed
        then have "cpixel ?cv' px py = cpixel cv px py" by (rule fillRect_outside)
        moreover have "cpixel cv px py = (cssByte (v r' N), cssByte (v g' N), cssByte (v b' N), 255)"
          using I st a tk by auto
        ultimately show ?thesis by simp
      qed
    qed
    then show "case patternStep N M layout cancelRef k st of
                 Inl e \<Rightarrow> False | Inr st' \<Rightarrow> ?I (k + 1) st'"
      unfolding st run by simp
  qed
  have m: "max 0 (N * N * N) = N * N * N" using N0 by simp
  obtain cv yl where r: "forM (indices (N * N * N)) (createCanvas width height, 0)
                   (patternStep N M layout cancelRef) = Inr (cv, yl)"
    using L by (auto split: sum.splits)
  have "?I (N * N * N) (cv, yl)" using L unfolding r m by simp
  then show ?thesis using r by auto
qed


lemma tile_in_image:
  assumes N0: "0 < N" and M0: "0 < M" and t: "0 \<le> t" "t < N * N * N"
    and dims: "computeDims N M layout = (tilesW, tilesH, width, height)"
    and tc: "tileCoords t N layout = (xT, yT)"
  shows "0 \<le> xT * M" "xT * M + M \<le> width" "0 \<le> yT * M" "yT * M + M \<le> height"
proof -
  have wh: "width = tilesW * M" "height = tilesH * M"
    using dims by (auto simp: computeDims_def Let_def)
  note rng = tileCoords_range [OF N0 t dims tc]
  show "0 \<le> xT * M" using rng M0 by simp
  have "(xT + 1) * M \<le> tilesW * M" using rng M0 by (intro mult_right_mono) simp_all
  then show "xT * M + M \<le> width" by (simp add: wh algebra_simps)
  show "0 \<le> yT * M" using rng M0 by simp
  have "(yT + 1) * M \<le> tilesH * M" using rng M0 by (intro mult_right_mono) simp_all
  then show "yT * M + M \<le> height" by (simp add: wh algebra_simps)
qed

lemma generated_pattern_identity:
  assumes N: "2 \<le> N" and M: "1 \<le> M" and nc: "\<forall>k. \<not> cancelRef k"
    and dims: "computeDims N M layout = (tilesW, tilesH, width, height)"
    and fits: "width \<le> canvasMaxDim hst" "height \<le> canvasMaxDim hst"
    and hst: "context2d hst" "pngEncodes hst"
  shows "\<exists>cv. generateStep1Pattern hst N M layout cancelRef = Inr cv \<and>
           identityImage N M layout (loadPngToImageData cv)"
proof -
  have N0: "0 < N" using N by simp
  have M0: "0 < M" using M by simp
  from pattern_loop [OF N M nc dims]
  obtain cv yl where run: "forM (indices (N * N * N)) (createCanvas width height, 0)
                   (patternStep N M layout cancelRef) = Inr (cv, yl)"
    and size: "cwidth cv = width" "cheight cv = height"
    and col: "\<And>t px py xT yT r g b. 0 \<le> t \<Longrightarrow> t < N * N * N \<Longrightarrow>
               tileCoords t N layout = (xT, yT) \<Longrightarrow> tileIndexToRGB t N = (r, g, b) \<Longrightarrow>
               xT * M \<le> px \<Longrightarrow> px < xT * M + M \<Longrightarrow> yT * M \<le> py \<Longrightarrow> py < yT * M + M \<Longrightarrow>
               cpixel cv px py = (cssByte (v r N), cssByte (v g N), cssByte (v b N), 255)"
    by blast
  have gen: "generateStep1Pattern hst N M layout cancelRef = Inr cv"
    using fits hst by (simp add: generateStep1Pattern_def dims run Let_def)
  let ?img = "loadPngToImageData cv"
  have iw: "img_width ?img = width" "img_height ?img = height"
    using size by (simp_all add: loadPngToImageData_def)
  have len: "length (img_data ?img) = nat (width * height * 4)"
    using length_loadPng [of cv] size by simp
  have px: "readByte (img_data ?img) ((py * width + px) * 4) = Fin (of_int (v r N)) \<and>
            readByte (img_data ?img) ((py * width + px) * 4 + 1) = Fin (of_int (v g N)) \<and>
            readByte (img_data ?img) ((py * width + px) * 4 + 2) = Fin (of_int (v b N))"
    if t: "0 \<le> t" "t < N * N * N" and tc: "tileCoords t N layout = (xT, yT)"
      and rgb: "tileIndexToRGB t N = (r, g, b)"
      and inT: "xT * M \<le> px" "px < xT * M + M" "yT * M \<le> py" "py < yT * M + M"
    for t px py xT yT r g b
  proof -
    note ti = tile_in_image [OF N0 M0 t dims tc]
    have inC: "0 \<le> px" "px < cwidth cv" "0 \<le> py" "py < cheight cv"
      using ti inT size by simp_all
    have c: "cpixel cv px py = (cssByte (v r N), cssByte (v g N), cssByte (v b N), 255)"
      using col [OF t tc rgb inT] .
    have "(r, g, b) = (t mod N, (t div N) mod N, t div (N * N))"
      using rgb tileIndexToRGB_nonneg [OF t(1) N0] by simp
    then have rr: "0 \<le> r" "r < N" "0 \<le> g" "g < N" "0 \<le> b" "b < N"
      using tileIndexToRGB_range [OF N0 t] by simp_all
    have u: "uint (cssByte (v r N)) = v r N" "uint (cssByte (v g N)) = v g N"
      "uint (cssByte (v b N)) = v b N"
      using v_byte [OF N rr(1,2)] v_byte [OF N rr(3,4)] v_byte [OF N rr(5,6)]
      by (simp_all add: uint_cssByte)
    show ?thesis
      using loadPng_read [OF inC c] unfolding size u by simp
  qed
  have "identityImage N M layout ?img"
    unfolding identityImage_def dims prod.case
    using iw len px by (auto split: prod.splits)
  with gen show ?thesis by blast
qed


subsection \<open>Sampling the generated image\<close>

lemma clampByte_byte: "0 \<le> k \<Longrightarrow> k \<le> 255 \<Longrightarrow> clampByte (Fin (of_int k)) fallback = k"
  by (simp add: clampByte_def mathRound_of_int Let_def)

lemma cell_index_bound:
  fixes N r g b :: int
  assumes "0 \<le> r" "r < N" "0 \<le> g" "g < N" "0 \<le> b" "b < N"
  shows "0 \<le> r + g * N + b * (N * N)" "r + g * N + b * (N * N) < N * N * N"
proof -
  have N: "0 < N" using assms by simp
  show "0 \<le> r + g * N + b * (N * N)" using assms N by simp
  have "g * N \<le> (N - 1) * N" using assms N by (intro mult_right_mono) simp_all
  moreover have "b * (N * N) \<le> (N - 1) * (N * N)" using assms N by (intro mult_right_mono) simp_all
  ultimately show "r + g * N + b * (N * N) < N * N * N" using assms by (simp add: algebra_simps)
qed

lemma cubeCell_identity:
  assumes idn: "identityImage N M layout img" and N: "2 \<le> N" and M: "1 \<le> M"
    and rr: "0 \<le> r" "r < N" "0 \<le> g" "g < N" "0 \<le> b" "b < N"
    and nc: "\<not> cancelRef yl"
  shows "\<exists>yl'. cubeCell img N M layout cancelRef b g r (lines, dn, yl)
           = Inr (lines @ [identityLine N r g b], dn + 1, yl')"
proof -
  have N0: "0 < N" using N by simp
  have M0: "0 < M" using M by simp
  obtain tilesW tilesH width height where dims: "computeDims N M layout = (tilesW, tilesH, width, height)"
    by (cases "computeDims N M layout") auto
  define t where "t = r + g * N + b * (N * N)"
  define xTile where "xTile = (if layout = wide then r + g * N else r)"
  define yTile where "yTile = (if layout = wide then b else g + b * N)"
  have t: "0 \<le> t" "t < N * N * N" using cell_index_bound [OF rr] by (simp_all add: t_def)
  have rgb: "tileIndexToRGB t N = (r, g, b)"
    unfolding t_def using N0 rr by (intro tileIndexToRGB_inverse_nonneg) simp_all
  have tc: "tileCoords t N layout = (xTile, yTile)"
    by (simp add: tileCoords_def rgb xTile_def yTile_def)
  have iw: "img_width img = width" "img_height img = height"
    using idn unfolding identityImage_def dims by simp_all
  have rd: "\<And>px py. xTile * M \<le> px \<Longrightarrow> px < xTile * M + M \<Longrightarrow> yTile * M \<le> py \<Longrightarrow>
       py < yTile * M + M \<Longrightarrow>
       readByte (img_data img) ((py * width + px) * 4) = Fin (of_int (v r N)) \<and>
       readByte (img_data img) ((py * width + px) * 4 + 1) = Fin (of_int (v g N)) \<and>
       readByte (img_data img) ((py * width + px) * 4 + 2) = Fin (of_int (v b N))"
  proof -
    fix px py
    assume a: "xTile * M \<le> px" "px < xTile * M + M" "yTile * M \<le> py" "py < yTile * M + M"
    have "\<forall>t px py. 0 \<le> t \<and> t < N * N * N \<longrightarrow>
           (case tileCoords t N layout of (xTile, yTile) \<Rightarrow>
            case tileIndexToRGB t N of (r, g, b) \<Rightarrow>
              xTile * M \<le> px \<and> px < xTile * M + M \<and> yTile * M \<le> py \<and> py < yTile * M + M \<longrightarrow>
              readByte (img_data img) ((py * width + px) * 4) = Fin (of_int (v r N)) \<and>
              readByte (img_data img) ((py * width + px) * 4 + 1) = Fin (of_int (v g N)) \<and>
              readByte (img_data img) ((py * width + px) * 4 + 2) = Fin (of_int (v b N)))"
      using idn unfolding identityImage_def dims by simp
    from this [rule_format, of t px py] t a
    show "readByte (img_data img) ((py * width + px) * 4) = Fin (of_int (v r N)) \<and>
       readByte (img_data img) ((py * width + px) * 4 + 1) = Fin (of_int (v g N)) \<and>
       readByte (img_data img) ((py * width + px) * 4 + 2) = Fin (of_int (v b N))"
      by (simp add: tc rgb)
  qed
  note ti = tile_in_image [OF N0 M0 t dims tc]
  have "\<forall>(px, py) \<in> set (samplePoints width height xTile yTile M).
             readByte (img_data img) ((py * width + px) * 4) = Fin (of_int (v r N)) \<and>
             readByte (img_data img) ((py * width + px) * 4 + 1) = Fin (of_int (v g N)) \<and>
             readByte (img_data img) ((py * width + px) * 4 + 2) = Fin (of_int (v b N))"
  proof (clarify)
    fix px py assume "(px, py) \<in> set (samplePoints width height xTile yTile M)"
    from samplePoints_in_tile [OF M ti(1,2) ti(3,4) this]
    show "readByte (img_data img) ((py * width + px) * 4) = Fin (of_int (v r N)) \<and>
             readByte (img_data img) ((py * width + px) * 4 + 1) = Fin (of_int (v g N)) \<and>
             readByte (img_data img) ((py * width + px) * 4 + 2) = Fin (of_int (v b N))"
      by (intro rd) simp_all
  qed
  then have smp: "sampleTileColor (img_data img) (img_width img) (img_height img) xTile yTile M
      = (Fin (of_int (v r N)), Fin (of_int (v g N)), Fin (of_int (v b N)))"
    unfolding iw by (rule sampleTileColor_uniform)
  have cb: "clampByte (Fin (of_int (v r N))) 0 = v r N" "clampByte (Fin (of_int (v g N))) 0 = v g N"
    "clampByte (Fin (of_int (v b N))) 0 = v b N"
    using v_byte [OF N rr(1,2)] v_byte [OF N rr(3,4)] v_byte [OF N rr(5,6)]
    by (simp_all add: clampByte_byte)
  show ?thesis
    unfolding cubeCell_def prod.case Let_def xTile_def [symmetric] yTile_def [symmetric] smp cb
    using nc by (simp add: identityLine_def)
qed


lemma identityLinesUpto_append:
  assumes inv: "identityLinesUpto N m lines"
    and rr: "0 \<le> r0" "r0 < N" "0 \<le> g0" "g0 < N" "0 \<le> b0" "b0 < N"
    and m: "m = b0 * (N * N) + g0 * N + r0"
  shows "identityLinesUpto N (m + 1) (lines @ [identityLine N r0 g0 b0])"
proof -
  have N0: "0 < N" using rr by simp
  have m': "m = r0 + g0 * N + b0 * (N * N)" using m by simp
  have m0: "0 \<le> m" unfolding m' using cell_index_bound(1) [OF rr] .
  have len: "length lines = nat m" using inv by (simp add: identityLinesUpto_def)
  have old: "\<And>r g b. 0 \<le> r \<Longrightarrow> r < N \<Longrightarrow> 0 \<le> g \<Longrightarrow> g < N \<Longrightarrow> 0 \<le> b \<Longrightarrow> b < N \<Longrightarrow>
        r + g * N + b * (N * N) < m \<Longrightarrow>
        lines ! nat (r + g * N + b * (N * N)) = identityLine N r g b"
    using inv by (simp add: identityLinesUpto_def)
  show ?thesis
    unfolding identityLinesUpto_def
  proof (intro conjI allI impI)
    show "length (lines @ [identityLine N r0 g0 b0]) = nat (m + 1)"
      using len m0 by (simp add: nat_add_distrib)
  next
    fix r g b
    assume a: "0 \<le> r \<and> r < N \<and> 0 \<le> g \<and> g < N \<and> 0 \<le> b \<and> b < N \<and>
        r + g * N + b * (N * N) < m + 1"
    let ?i = "r + g * N + b * (N * N)"
    have i0: "0 \<le> ?i" using cell_index_bound(1) [of r N g b] a by simp
    show "(lines @ [identityLine N r0 g0 b0]) ! nat ?i = identityLine N r g b"
    proof (cases "?i < m")
      case True
      then have "nat ?i < length lines" using len i0 by simp
      then show ?thesis using old True a by (simp add: nth_append)
    next
      case False
      then have e: "?i = r0 + g0 * N + b0 * (N * N)" using a m' by simp
      have "tileIndexToRGB ?i N = (r, g, b)"
        using N0 a by (intro tileIndexToRGB_inverse_nonneg) simp_all
      moreover have "tileIndexToRGB (r0 + g0 * N + b0 * (N * N)) N = (r0, g0, b0)"
        using N0 rr by (intro tileIndexToRGB_inverse_nonneg) simp_all
      ultimately have same: "r = r0 \<and> g = g0 \<and> b = b0" unfolding e by simp
      have "nat ?i = length lines" using e m' len by simp
      then show ?thesis using same by (simp add: nth_append)
    qed
  qed
qed

lemma cube_inner_loop:
  assumes idn: "identityImage N M layout img" and N: "2 \<le> N" and M: "1 \<le> M"
    and nc: "\<forall>k. \<not> cancelRef k"
    and gb: "0 \<le> g" "g < N" "0 \<le> b" "b < N"
    and inv: "identityLinesUpto N (b * (N * N) + g * N) (fst st)"
  shows "case forM (indices N) st (cubeCell img N M layout cancelRef b g) of
           Inl e \<Rightarrow> False
         | Inr st' \<Rightarrow> identityLinesUpto N (b * (N * N) + (g + 1) * N) (fst st')"
proof -
  let ?I = "\<lambda>k (st :: (rat \<times> rat \<times> rat) list \<times> int \<times> nat).
      identityLinesUpto N (b * (N * N) + g * N + k) (fst st)"
  have L: "case forM (indices N) st (cubeCell img N M layout cancelRef b g) of
             Inl e \<Rightarrow> False | Inr st' \<Rightarrow> ?I (max 0 N) st'"
  proof (rule forM_indices_rule [where I = ?I and E = "\<lambda>e. False"])
    show "?I 0 st" using inv by simp
  next
    fix k and s :: "(rat \<times> rat \<times> rat) list \<times> int \<times> nat"
    assume k: "0 \<le> k" "k < N" and I: "?I k s"
    obtain lines dn yl where s: "s = (lines, dn, yl)" by (cases s)
    have ncy: "\<not> cancelRef yl" using nc by simp
    from cubeCell_identity [where cancelRef = cancelRef and yl = yl and lines = lines and dn = dn,
        OF idn N M k gb ncy]
    obtain yl' where run: "cubeCell img N M layout cancelRef b g k (lines, dn, yl)
           = Inr (lines @ [identityLine N k g b], dn + 1, yl')"
      by blast
    have Il: "identityLinesUpto N (b * (N * N) + g * N + k) lines" using I s by simp
    have "identityLinesUpto N (b * (N * N) + g * N + k + 1) (lines @ [identityLine N k g b])"
      by (rule identityLinesUpto_append [OF Il k gb]) simp
    then show "case cubeCell img N M layout cancelRef b g k s of
                 Inl e \<Rightarrow> False | Inr st' \<Rightarrow> ?I (k + 1) st'"
      unfolding s run by (simp add: add.assoc)
  qed
  have e: "b * (N * N) + g * N + max 0 N = b * (N * N) + (g + 1) * N"
    using N by (simp add: algebra_simps)
  show ?thesis using L unfolding e .
qed

lemma cube_middle_loop:
  assumes idn: "identityImage N M layout img" and N: "2 \<le> N" and M: "1 \<le> M"
    and nc: "\<forall>k. \<not> cancelRef k"
    and b: "0 \<le> b" "b < N"
    and inv: "identityLinesUpto N (b * (N * N)) (fst st)"
  shows "case forM (indices N) st
                (\<lambda>g st. forM (indices N) st (cubeCell img N M layout cancelRef b g)) of
           Inl e \<Rightarrow> False
         | Inr st' \<Rightarrow> identityLinesUpto N ((b + 1) * (N * N)) (fst st')"
proof -
  let ?I = "\<lambda>k (st :: (rat \<times> rat \<times> rat) list \<times> int \<times> nat).
      identityLinesUpto N (b * (N * N) + k * N) (fst st)"
  have L: "case forM (indices N) st
                (\<lambda>g st. forM (indices N) st (cubeCell img N M layout cancelRef b g)) of
             Inl e \<Rightarrow> False | Inr st' \<Rightarrow> ?I (max 0 N) st'"
  proof (rule forM_indices_rule [where I = ?I and E = "\<lambda>e. False"])
    show "?I 0 st" using inv by simp
  next
    fix k and s :: "(rat \<times> rat \<times> rat) list \<times> int \<times> nat"
    assume k: "0 \<le> k" "k < N" and I: "?I k s"
    show "case forM (indices N) s (cubeCell img N M layout cancelRef b k) of
            Inl e \<Rightarrow> False | Inr st' \<Rightarrow> ?I (k + 1) st'"
      using cube_inner_loop [OF idn N M nc k b I] .
  qed
  have e: "b * (N * N) + max 0 N * N = (b + 1) * (N * N)"
    using N by (simp add: algebra_simps)
  show ?thesis using L unfolding e .
qed

lemma cube_outer_loop:
  assumes idn: "identityImage N M layout img" and N: "2 \<le> N" and M: "1 \<le> M"
    and nc: "\<forall>k. \<not> cancelRef k"
  shows "case forM (indices N) ([], 0, 0)
                (\<lambda>b st. forM (indices N) st
                   (\<lambda>g st. forM (indices N) st (cubeCell img N M layout cancelRef b g))) of
           Inl e \<Rightarrow> False
         | Inr st' \<Rightarrow> identityLinesUpto N (N * N * N) (fst st')"
proof -
  let ?I = "\<lambda>k (st :: (rat \<times> rat \<times> rat) list \<times> int \<times> nat).
      identityLinesUpto N (k * (N * N)) (fst st)"
  have L: "case forM (indices N) ([], 0, 0)
                (\<lambda>b st. forM (indices N) st
                   (\<lambda>g st. forM (indices N) st (cubeCell img N M layout cancelRef b g))) of
             Inl e \<Rightarrow> False | Inr st' \<Rightarrow> ?I (max 0 N) st'"
  proof (rule forM_indices_rule [where I = ?I and E = "\<lambda>e. False"])
    have "\<And>r g b. 0 \<le> r \<Longrightarrow> r < N \<Longrightarrow> 0 \<le> g \<Longrightarrow> g < N \<Longrightarrow> 0 \<le> b \<Longrightarrow> b < N \<Longrightarrow>
        \<not> r + g * N + b * (N * N) < 0"
      using cell_index_bound(1) by (simp add: not_less)
    then show "?I 0 ([], 0, 0)" by (auto simp: identityLinesUpto_def)
  next
    fix k and s :: "(rat \<times> rat \<times> rat) list \<times> int \<times> nat"
    assume k: "0 \<le> k" "k < N" and I: "?I k s"
    show "case forM (indices N) s
                (\<lambda>g st. forM (indices N) st (cubeCell img N M layout cancelRef k g)) of
            Inl e \<Rightarrow> False | Inr st' \<Rightarrow> ?I (k + 1) st'"
      using cube_middle_loop [OF idn N M nc k I] .
  qed
  have e: "max 0 N * (N * N) = N * N * N" using N by simp
  show ?thesis using L unfolding e .
qed


subsection \<open>Rounding errors\<close>

lemma mathRound_error: "\<bar>of_int (mathRound q) - q\<bar> \<le> 1 / 2"
proof -
  have "of_int \<lfloor>q + 1 / 2\<rfloor> \<le> q + 1 / 2" by (rule of_int_floor_le)
  moreover have "q + 1 / 2 < of_int \<lfloor>q + 1 / 2\<rfloor> + 1" by (rule floor_correct [THEN conjunct2, simplified])
  ultimately show ?thesis unfolding mathRound_def by linarith
qed

lemma toFixed6_error:
  assumes "0 \<le> q"
  shows "\<bar>toFixed6 q - q\<bar> \<le> 1 / 2000000"
proof (cases "q = 0")
  case True
  then show ?thesis by (simp add: toFixed6_def)
next
  case False
  then have pos: "0 < q" using assms by simp
  have tf: "toFixed6 q = of_int (mathRound (q * 1000000)) / 1000000"
    using pos by (simp add: toFixed6_def mathRound_def)
  have "\<bar>of_int (mathRound (q * 1000000)) - q * 1000000\<bar> \<le> 1 / 2" by (rule mathRound_error)
  then have "\<bar>(of_int (mathRound (q * 1000000)) - q * 1000000) / 1000000\<bar> \<le> (1 / 2) / 1000000"
    by (simp only: abs_divide) (simp add: divide_le_cancel)
  then show ?thesis unfolding tf by (simp add: diff_divide_distrib)
qed

lemma identityLine_close:
  assumes N: "2 \<le> N" and r: "0 \<le> r" "r < N"
  shows "\<bar>toFixed6 (of_int (v r N) / 255) - of_int r / of_int (N - 1)\<bar> \<le> 1 / 255"
proof -
  define q :: rat where "q = of_int (r * 255) / of_int (N - 1)"
  define x :: rat where "x = of_int (v r N) / 255"
  have vq: "v r N = mathRound q" using N by (simp add: v_def q_def)
  have q255: "q / 255 = of_int r / of_int (N - 1)" by (simp add: q_def del: of_int_diff)
  have "\<bar>of_int (v r N) - q\<bar> \<le> 1 / 2" unfolding vq by (rule mathRound_error)
  then have "\<bar>(of_int (v r N) - q) / 255\<bar> \<le> (1 / 2) / 255"
    by (simp only: abs_divide) (simp add: divide_le_cancel)
  then have a: "\<bar>x - of_int r / of_int (N - 1)\<bar> \<le> 1 / 510"
    unfolding x_def q255 [symmetric] by (simp add: diff_divide_distrib)
  have "0 \<le> x" unfolding x_def using v_byte [OF N r] by simp
  then have b: "\<bar>toFixed6 x - x\<bar> \<le> 1 / 2000000" by (rule toFixed6_error)
  have "\<bar>toFixed6 x - of_int r / of_int (N - 1)\<bar> \<le> 1 / 255" using a b by linarith
  then show ?thesis unfolding x_def .
qed

text \<open>
  Claim C2. For every \<open>N \<ge> 2\<close>, \<open>M \<ge> 1\<close> and layout (with the image within the host's
  dimension limit, a working canvas and encoder, and no cancellation): generating the
  identity pattern and sampling the untransformed image with the same geometry yields a
  cube file with \<open>N\<^sup>3\<close> data lines, and for every lattice cell \<open>(r, g, b)\<close> the line of that
  cell (at position \<open>r + g \<sqdot> N + b \<sqdot> N\<^sup>2\<close>, red fastest) has its three values within
  \<open>1/255\<close> of \<open>r/(N-1)\<close>, \<open>g/(N-1)\<close>, \<open>b/(N-1)\<close>.
\<close>

theorem identity_roundtrip:
  assumes N: "2 \<le> N" and M: "1 \<le> M"
    and dims: "computeDims N M layout = (tilesW, tilesH, width, height)"
    and fits: "width \<le> canvasMaxDim hst" "height \<le> canvasMaxDim hst"
    and hst: "context2d hst" "pngEncodes hst"
    and nc1: "\<forall>k. \<not> cancelGen k" and nc2: "\<forall>k. \<not> cancelLut k"
  shows "\<exists>cv cube.
           generateStep1Pattern hst N M layout cancelGen = Inr cv \<and>
           generateCubeLut (loadPngToImageData cv) (N, M, layout) cancelLut = Inr cube \<and>
           cube_size cube = N \<and> length (cube_lines cube) = nat (N * N * N) \<and>
           (\<forall>r g b. 0 \<le> r \<and> r < N \<and> 0 \<le> g \<and> g < N \<and> 0 \<le> b \<and> b < N \<longrightarrow>
              (\<exists>R G B. cube_lines cube ! nat (r + g * N + b * (N * N)) = (R, G, B) \<and>
                 \<bar>R - of_int r / of_int (N - 1)\<bar> \<le> 1 / 255 \<and>
                 \<bar>G - of_int g / of_int (N - 1)\<bar> \<le> 1 / 255 \<and>
                 \<bar>B - of_int b / of_int (N - 1)\<bar> \<le> 1 / 255))"
proof -
  from generated_pattern_identity [OF N M nc1 dims fits hst]
  obtain cv where gen: "generateStep1Pattern hst N M layout cancelGen = Inr cv"
    and idn: "identityImage N M layout (loadPngToImageData cv)"
    by blast
  let ?img = "loadPngToImageData cv"
  note L = cube_outer_loop [OF idn N M nc2]
  obtain lines dn yl where run: "forM (indices N) ([], 0, 0)
                (\<lambda>b st. forM (indices N) st
                   (\<lambda>g st. forM (indices N) st (cubeCell ?img N M layout cancelLut b g)))
        = Inr (lines, dn, yl)"
    using L by (auto split: sum.splits)
  have inv: "identityLinesUpto N (N * N * N) lines" using L unfolding run by simp
  define cube where "cube = \<lparr>cube_title = (N, M, layout), cube_size = N, cube_lines = lines\<rparr>"
  have lut: "generateCubeLut ?img (N, M, layout) cancelLut = Inr cube"
    by (simp add: generateCubeLut_def run cube_def)
  have len: "length (cube_lines cube) = nat (N * N * N)"
    using inv by (simp add: identityLinesUpto_def cube_def)
  have cells: "\<exists>R G B. cube_lines cube ! nat (r + g * N + b * (N * N)) = (R, G, B) \<and>
                 \<bar>R - of_int r / of_int (N - 1)\<bar> \<le> 1 / 255 \<and>
                 \<bar>G - of_int g / of_int (N - 1)\<bar> \<le> 1 / 255 \<and>
                 \<bar>B - of_int b / of_int (N - 1)\<bar> \<le> 1 / 255"
    if rr: "0 \<le> r \<and> r < N \<and> 0 \<le> g \<and> g < N \<and> 0 \<le> b \<and> b < N" for r g b
  proof -
    have "r + g * N + b * (N * N) < N * N * N" using cell_index_bound(2) [of r N g b] rr by simp
    then have "cube_lines cube ! nat (r + g * N + b * (N * N)) = identityLine N r g b"
      using inv rr by (simp add: identityLinesUpto_def cube_def)
    then show ?thesis
      using identityLine_close [OF N, of r] identityLine_close [OF N, of g]
        identityLine_close [OF N, of b] rr
      by (simp add: identityLine_def)
  qed
  have "cube_size cube = N" by (simp add: cube_def)
  with gen lut len cells show ?thesis by blast
qed

theorem identity_roundtrip_witness:
  "\<exists>cv cube.
     generateStep1Pattern \<lparr>canvasMaxDim = 16384, context2d = True, pngEncodes = True\<rparr> 2 1 wide
       (\<lambda>k. False) = Inr cv \<and>
     generateCubeLut (loadPngToImageData cv) (2, 1, wide) (\<lambda>k. False) = Inr cube \<and>
     length (cube_lines cube) = 8 \<and>
     (\<exists>R G B. cube_lines cube ! 5 = (R, G, B) \<and>
        \<bar>R - 1\<bar> \<le> 1 / 255 \<and> \<bar>G - 0\<bar> \<le> 1 / 255 \<and> \<bar>B - 1\<bar> \<le> 1 / 255)"
proof -
  let ?h = "\<lparr>canvasMaxDim = 16384, context2d = True, pngEncodes = True\<rparr>"
  have N: "(2::int) \<le> 2" and M: "(1::int) \<le> 1" by simp_all
  have d: "computeDims 2 1 wide = (4, 2, 4, 2)" by (simp add: computeDims_def Let_def)
  have nc: "\<forall>k :: nat. \<not> (\<lambda>k. False) k" by simp
  from identity_roundtrip [where hst = ?h and cancelGen = "\<lambda>k. False" and cancelLut = "\<lambda>k. False",
      OF N M d _ _ _ _ nc nc]
  obtain cv cube where
    g: "generateStep1Pattern ?h 2 1 wide (\<lambda>k. False) = Inr cv"
    and l: "generateCubeLut (loadPngToImageData cv) (2, 1, wide) (\<lambda>k. False) = Inr cube"
    and n: "length (cube_lines cube) = nat (2 * 2 * 2)"
    and c: "\<forall>r g b. 0 \<le> r \<and> r < 2 \<and> 0 \<le> g \<and> g < 2 \<and> 0 \<le> b \<and> b < 2 \<longrightarrow>
              (\<exists>R G B. cube_lines cube ! nat (r + g * 2 + b * (2 * 2)) = (R, G, B) \<and>
                 \<bar>R - of_int r / of_int (2 - 1)\<bar> \<le> 1 / 255 \<and>
                 \<bar>G - of_int g / of_int (2 - 1)\<bar> \<le> 1 / 255 \<and>
                 \<bar>B - of_int b / of_int (2 - 1)\<bar> \<le> 1 / 255)"
    by auto
  from c [rule_format, of 1 0 1]
  have "\<exists>R G B. cube_lines cube ! 5 = (R, G, B) \<and>
        \<bar>R - 1\<bar> \<le> 1 / 255 \<and> \<bar>G - 0\<bar> \<le> 1 / 255 \<and> \<bar>B - 1\<bar> \<le> 1 / 255"
    by simp
  with g l n show ?thesis by auto
qed

end
